theory Spec2Isabelle
  imports Main "HOL-Library.Sublist"
begin

section \<open>JavaScript values and string primitives\<close>

text \<open>
  A JavaScript string is modelled as a \<^typ>\<open>string\<close>: a list of code units, each below 256
  (a \<^typ>\<open>char\<close>).  A Node \<open>Buffer\<close> is a list of bytes, also a \<^typ>\<open>char list\<close>.
  A thrown value is either an \<open>Error\<close> object, of which only the message is read, or any
  other value (\<open>undefined\<close> among them), which the code tells apart with
  \<open>instanceof Error\<close>.
\<close>

datatype thrown = Error string | NonError

type_synonym buffer = "char list"

text \<open>\<open>s.startsWith(t)\<close> and \<open>s.includes(t)\<close>.\<close>

fun starts_with :: "string \<Rightarrow> string \<Rightarrow> bool" where
  "starts_with s [] = True"
| "starts_with [] (t # ts) = False"
| "starts_with (c # cs) (t # ts) = (c = t \<and> starts_with cs ts)"

fun js_includes :: "string \<Rightarrow> string \<Rightarrow> bool" where
  "js_includes [] t = starts_with [] t"
| "js_includes (c # cs) t = (starts_with (c # cs) t \<or> js_includes cs t)"

text \<open>
  \<open>s.trim()\<close> removes white space and line terminators from both ends.  Below 256 these
  are the code units 9 to 13, 32 and 160.
\<close>

definition is_space :: "char \<Rightarrow> bool" where
  "is_space c = (let n = (of_char c :: nat) in (9 \<le> n \<and> n \<le> 13) \<or> n = 32 \<or> n = 160)"

definition trim :: "string \<Rightarrow> string" where
  "trim s = rev (dropWhile is_space (rev (dropWhile is_space s)))"

text \<open>
  \<open>s.toLowerCase()\<close>: below 256 the upper-case letters are \<open>A\<close> to \<open>Z\<close> and the
  code units 192 to 222 without 215, each 32 below its lower-case letter.
\<close>

definition lower_char :: "char \<Rightarrow> char" where
  "lower_char c =
     (let n = (of_char c :: nat)
      in if (65 \<le> n \<and> n \<le> 90) \<or> (192 \<le> n \<and> n \<le> 222 \<and> n \<noteq> 215)
         then char_of (n + 32) else c)"

definition toLowerCase :: "string \<Rightarrow> string" where
  "toLowerCase s = map lower_char s"

text \<open>\<open>s.split(d)\<close> for a one-character separator; the result is never empty.\<close>

fun split :: "char \<Rightarrow> string \<Rightarrow> string list" where
  "split d [] = [[]]"
| "split d (c # cs) =
     (if c = d then [] # split d cs
      else (c # hd (split d cs)) # tl (split d cs))"

text \<open>\<open>xs.pop()\<close> read for its value: the last element, \<open>undefined\<close> on an empty array.\<close>

definition pop :: "'a list \<Rightarrow> 'a option" where
  "pop xs = (if xs = [] then None else Some (last xs))"

section \<open>Validators (\<open>extractFileId\<close>, \<open>detectMimeTypeFromExtension\<close>)\<close>

text \<open>
  Every entry of \<open>fileIdPatterns\<close> is a literal, the group \<open>([a-zA-Z0-9-_]+)\<close> and a
  literal again (empty in seven of the nine).  A pattern is the pair of its literals.
\<close>

record id_pattern =
  before :: string
  after :: string

definition is_id_char :: "char \<Rightarrow> bool" where
  "is_id_char c =
     (let n = (of_char c :: nat)
      in (97 \<le> n \<and> n \<le> 122) \<or> (65 \<le> n \<and> n \<le> 90) \<or> (48 \<le> n \<and> n \<le> 57)
         \<or> c = CHR ''-'' \<or> c = CHR ''_'')"

definition fileIdPatterns :: "id_pattern list" where
  "fileIdPatterns =
    [\<lparr>before = ''/file/d/'', after = ''''\<rparr>,
     \<lparr>before = ''id='', after = ''''\<rparr>,
     \<lparr>before = ''/d/'', after = ''/view''\<rparr>,
     \<lparr>before = ''/d/'', after = ''/edit''\<rparr>,
     \<lparr>before = ''/document/d/'', after = ''''\<rparr>,
     \<lparr>before = ''/spreadsheets/d/'', after = ''''\<rparr>,
     \<lparr>before = ''/presentation/d/'', after = ''''\<rparr>,
     \<lparr>before = ''/forms/d/'', after = ''''\<rparr>,
     \<lparr>before = ''/drawings/d/'', after = ''''\<rparr>]"

text \<open>
  The group is greedy: it first takes the whole run of identifier characters and gives
  characters back one at a time until the rest of the pattern matches; it keeps at least one.
\<close>

primrec group_backtrack :: "nat \<Rightarrow> string \<Rightarrow> string \<Rightarrow> string option" where
  "group_backtrack 0 suf rest = None"
| "group_backtrack (Suc n) suf rest =
     (if starts_with (drop (Suc n) rest) suf then Some (take (Suc n) rest)
      else group_backtrack n suf rest)"

definition match_at :: "id_pattern \<Rightarrow> string \<Rightarrow> string option" where
  "match_at p s =
     (if starts_with s (before p)
      then (let rest = drop (length (before p)) s
            in group_backtrack (length (takeWhile is_id_char rest)) (after p) rest)
      else None)"

text \<open>\<open>s.match(re)\<close> without the \<open>g\<close> flag: the match at the leftmost position that has one.\<close>

fun leftmost :: "(string \<Rightarrow> 'a option) \<Rightarrow> string \<Rightarrow> 'a option" where
  "leftmost m [] = m []"
| "leftmost m (c # cs) = (case m (c # cs) of Some r \<Rightarrow> Some r | None \<Rightarrow> leftmost m cs)"

definition match_id :: "string \<Rightarrow> id_pattern \<Rightarrow> string option" where
  "match_id s p = leftmost (match_at p) s"

text \<open>The argument of \<open>extractFileId\<close> at run time: a string, or a value of another type.\<close>

datatype js_arg = JsString string | JsOther

definition invalid_url :: thrown where
  "invalid_url = Error ''Invalid URL provided''"

definition id_not_found :: thrown where
  "id_not_found =
     Error ''File ID not found in URL. Please verify it is a valid Google Drive URL''"

fun first_id :: "id_pattern list \<Rightarrow> string \<Rightarrow> thrown + string" where
  "first_id [] cleanUrl = Inl id_not_found"
| "first_id (pattern # ps) cleanUrl =
     (case match_id cleanUrl pattern of
        Some g \<Rightarrow> if g \<noteq> [] then Inr g else first_id ps cleanUrl
      | None \<Rightarrow> first_id ps cleanUrl)"

fun extractFileId :: "js_arg \<Rightarrow> thrown + string" where
  "extractFileId JsOther = Inl invalid_url"
| "extractFileId (JsString url) =
     (if url = [] then Inl invalid_url else first_id fileIdPatterns (trim url))"

text \<open>
  \<open>mimeTypeMap\<close> is an object literal.  Reading \<open>mimeTypeMap[key]\<close> gives the entry's string
  for one of its own keys, a function or object (never a string) for the names every object
  inherits from \<open>Object.prototype\<close>, and \<open>undefined\<close> otherwise.
\<close>

datatype mime_value = Absent | Mime string | NotAString

definition mimeTypeMap :: "(string \<times> string) list" where
  "mimeTypeMap =
    [(''pdf'', ''application/pdf''),
     (''doc'', ''application/msword''),
     (''docx'', ''application/vnd.openxmlformats-officedocument.wordprocessingml.document''),
     (''xls'', ''application/vnd.ms-excel''),
     (''xlsx'', ''application/vnd.openxmlformats-officedocument.spreadsheetml.sheet''),
     (''ppt'', ''application/vnd.ms-powerpoint''),
     (''pptx'', ''application/vnd.openxmlformats-officedocument.presentationml.presentation''),
     (''txt'', ''text/plain''),
     (''csv'', ''text/csv''),
     (''rtf'', ''application/rtf''),
     (''odt'', ''application/vnd.oasis.opendocument.text''),
     (''ods'', ''application/vnd.oasis.opendocument.spreadsheet''),
     (''odp'', ''application/vnd.oasis.opendocument.presentation''),
     (''jpg'', ''image/jpeg''),
     (''jpeg'', ''image/jpeg''),
     (''png'', ''image/png''),
     (''gif'', ''image/gif''),
     (''bmp'', ''image/bmp''),
     (''webp'', ''image/webp''),
     (''svg'', ''image/svg+xml''),
     (''mp4'', ''video/mp4''),
     (''avi'', ''video/x-msvideo''),
     (''mov'', ''video/quicktime''),
     (''wmv'', ''video/x-ms-wmv''),
     (''mp3'', ''audio/mpeg''),
     (''wav'', ''audio/wav''),
     (''zip'', ''application/zip''),
     (''rar'', ''application/x-rar-compressed''),
     (''7z'', ''application/x-7z-compressed''),
     (''json'', ''application/json''),
     (''xml'', ''application/xml''),
     (''html'', ''text/html''),
     (''css'', ''text/css''),
     (''js'', ''application/javascript'')]"

definition object_prototype_names :: "string list" where
  "object_prototype_names =
    [''constructor'', ''__defineGetter__'', ''__defineSetter__'', ''hasOwnProperty'',
     ''__lookupGetter__'', ''__lookupSetter__'', ''isPrototypeOf'', ''propertyIsEnumerable'',
     ''toString'', ''valueOf'', ''__proto__'', ''toLocaleString'']"

definition mimeTypeMap_get :: "string \<Rightarrow> mime_value" where
  "mimeTypeMap_get key =
     (case map_of mimeTypeMap key of
        Some v \<Rightarrow> Mime v
      | None \<Rightarrow> if key \<in> set object_prototype_names then NotAString else Absent)"

text \<open>Truthiness: \<open>null\<close>, \<open>undefined\<close> and the empty string are falsy.\<close>

fun truthy :: "mime_value \<Rightarrow> bool" where
  "truthy Absent = False"
| "truthy (Mime s) = (s \<noteq> [])"
| "truthy NotAString = True"

definition detectMimeTypeFromExtension :: "string \<Rightarrow> mime_value" where
  "detectMimeTypeFromExtension fileName =
     (case map_option toLowerCase (pop (split CHR ''.'' fileName)) of
        None \<Rightarrow> Absent
      | Some extension \<Rightarrow>
          if extension \<noteq> []
          then (if truthy (mimeTypeMap_get extension) then mimeTypeMap_get extension else Absent)
          else Absent)"

section \<open>The downloader (\<open>GoogleDriveDownloader\<close>)\<close>

subsection \<open>\<open>getDownloadUrls\<close>\<close>

text \<open>
  \<open>mimeType?.includes(w)\<close> on a \<open>string | null\<close>: \<open>undefined\<close>, which is falsy, for
  \<open>null\<close>.  Each \<open>urls.push\<close> appends one element to the array built so far.
\<close>

definition opt_includes :: "string option \<Rightarrow> string \<Rightarrow> bool" where
  "opt_includes m w = (case m of None \<Rightarrow> False | Some s \<Rightarrow> js_includes s w)"

definition push_if :: "bool \<Rightarrow> string \<Rightarrow> string list \<Rightarrow> string list" where
  "push_if b u urls = (if b then urls @ [u] else urls)"

definition getDownloadUrls :: "string \<Rightarrow> string option \<Rightarrow> string \<Rightarrow> string list" where
  "getDownloadUrls fileId mimeType exportFormat =
     (let urls = [];
          urls =
            (if opt_includes mimeType ''document'' then
               (let urls = push_if (exportFormat = ''original'' \<or> exportFormat = ''docx'')
                      (''https://docs.google.com/document/d/'' @ fileId @ ''/export?format=docx'')
                      urls;
                    urls = push_if (exportFormat = ''pdf'' \<or> exportFormat = ''original'')
                      (''https://docs.google.com/document/d/'' @ fileId @ ''/export?format=pdf'')
                      urls
                in urls)
             else if opt_includes mimeType ''spreadsheet'' then
               (let urls = push_if (exportFormat = ''original'' \<or> exportFormat = ''xlsx'')
                      (''https://docs.google.com/spreadsheets/d/'' @ fileId
                         @ ''/export?format=xlsx'')
                      urls;
                    urls = push_if (exportFormat = ''pdf'' \<or> exportFormat = ''original'')
                      (''https://docs.google.com/spreadsheets/d/'' @ fileId
                         @ ''/export?format=pdf'')
                      urls
                in urls)
             else if opt_includes mimeType ''presentation'' then
               (let urls = push_if (exportFormat = ''original'' \<or> exportFormat = ''pptx'')
                      (''https://docs.google.com/presentation/d/'' @ fileId
                         @ ''/export?format=pptx'')
                      urls;
                    urls = push_if (exportFormat = ''pdf'' \<or> exportFormat = ''original'')
                      (''https://docs.google.com/presentation/d/'' @ fileId
                         @ ''/export?format=pdf'')
                      urls
                in urls)
             else urls);
          urls = urls @ [''https://drive.usercontent.google.com/download?id='' @ fileId
                           @ ''&export=download&authuser=0''];
          urls = urls @ [''https://drive.usercontent.google.com/download?id='' @ fileId
                           @ ''&export=download&confirm=t''];
          urls = urls @ [''https://drive.usercontent.google.com/download?id='' @ fileId
                           @ ''&export=download''];
          urls = urls @ [''https://drive.google.com/uc?export=download&id='' @ fileId];
          urls = urls @ [''https://drive.google.com/uc?id='' @ fileId @ ''&export=download'']
      in urls)"

subsection \<open>\<open>detectMimeTypeFromBuffer\<close>\<close>

text \<open>
  \<open>buffer.slice(a, b)\<close> is \<open>take (b - a) (drop a buffer)\<close>.  \<open>toString()\<close> decodes UTF-8;
  a byte below 128 decodes to itself and no other byte sequence decodes to a character
  below 128, so comparing the decoded text with an ASCII literal, or searching it for one,
  is the same comparison or search on the bytes.
\<close>

definition slice :: "buffer \<Rightarrow> nat \<Rightarrow> nat \<Rightarrow> buffer" where
  "slice buf a b = take (b - a) (drop a buf)"

definition octet_stream :: string where
  "octet_stream = ''application/octet-stream''"

definition detectMimeTypeFromBuffer :: "buffer \<Rightarrow> string" where
  "detectMimeTypeFromBuffer buf =
     (if length buf < 4 then octet_stream
      else if slice buf 0 4 = ''%PDF'' then ''application/pdf''
      else let firstBytes = slice buf 0 12 in
        if firstBytes ! 0 = CHR 0xFF \<and> firstBytes ! 1 = CHR 0xD8 \<and> firstBytes ! 2 = CHR 0xFF
          then ''image/jpeg''
        else if firstBytes ! 0 = CHR 0x89 \<and> firstBytes ! 1 = CHR 0x50
                \<and> firstBytes ! 2 = CHR 0x4E \<and> firstBytes ! 3 = CHR 0x47
          then ''image/png''
        else if slice buf 0 3 = ''GIF'' then ''image/gif''
        else if slice buf 0 4 = ''RIFF'' \<and> slice buf 8 12 = ''WEBP'' then ''image/webp''
        else if firstBytes ! 0 = CHR 0x50 \<and> firstBytes ! 1 = CHR 0x4B then
          (let zipBuffer = slice buf 0 100 in
           if js_includes zipBuffer ''word/''
             then ''application/vnd.openxmlformats-officedocument.wordprocessingml.document''
           else if js_includes zipBuffer ''xl/''
             then ''application/vnd.openxmlformats-officedocument.spreadsheetml.sheet''
           else if js_includes zipBuffer ''ppt/''
             then ''application/vnd.openxmlformats-officedocument.presentationml.presentation''
           else ''application/zip'')
        else octet_stream)"

subsection \<open>Configuration, transport and result types\<close>

text \<open>
  \<open>CONFIG\<close> is imported from a module that is not among the sources; its values are
  parameters.  \<open>MAX_BUFFER_MB\<close> is the text JavaScript prints for
  \<open>CONFIG.MAX_BUFFER_SIZE / 1024 / 1024\<close> inside an error message.
\<close>

record config =
  DEFAULT_TIMEOUT :: nat
  DEFAULT_MAX_RETRIES :: int
  DEFAULT_RETRY_DELAY :: nat
  LARGE_FILE_TIMEOUT :: nat
  MAX_BUFFER_SIZE :: nat
  MAX_BUFFER_MB :: string

text \<open>
  The interfaces of \<open>types/index.ts\<close>.  Several of them have fields of the same name, so
  each record's fields carry a prefix (\<open>info_\<close>, \<open>opt_\<close>, \<open>file_\<close>, \<open>res_\<close>).  An optional
  field is an \<open>option\<close>.  \<open>IFileInfo.size\<close> is left out: the code only logs it.
\<close>

record IFileInfo =
  info_name :: string
  info_mimeType :: mime_value

record IDownloadOptions =
  opt_timeout :: "nat option"
  opt_maxRetries :: "int option"
  opt_retryDelay :: "nat option"
  opt_exportFormat :: "string option"
  opt_asBuffer :: "bool option"

text \<open>
  A response body read as a stream: the chunks its \<open>data\<close> events deliver, then how it
  stops: an \<open>end\<close> event, an \<open>error\<close> event with the value it carries, or neither
  before the 60 second timer of \<open>streamToBuffer\<close> fires.
\<close>

datatype stream_end = End | Failed thrown | Stalled

record readable =
  stream_chunks :: "buffer list"
  stream_ending :: stream_end

record response =
  content_type :: "string option"
  content_length :: "string option"
  resp_data :: readable

text \<open>
  A body fetched without \<open>responseType: 'stream'\<close>: text, \<open>null\<close>, or another value
  axios parsed from JSON (a number, a boolean, an array, an object).
\<close>

datatype body = Text string | Null | Parsed

record api_data =
  api_name :: string
  api_mimeType :: "string option"

text \<open>
  The transport (axios) is outside the code; it is a parameter.  Every request is a GET and
  the answer is either a thrown value or a response.  \<open>get_json\<close> answers the metadata
  request, \<open>get_stream\<close> the requests made with \<open>responseType: 'stream'\<close>,
  \<open>get_text\<close> the request for the confirmation page.  \<open>scrape_name\<close> stands for the
  \<open>try\<close> block of \<open>getFileInfoFromPage\<close> up to its \<open>return\<close>: fetching the view page
  and reading a file name out of its title tags, or throwing.  Request timeouts are not
  modelled.
\<close>

record env =
  get_json :: "string \<Rightarrow> thrown + api_data"
  scrape_name :: "string \<Rightarrow> string \<Rightarrow> thrown + string"
  get_stream :: "string \<Rightarrow> thrown + response"
  get_text :: "string \<Rightarrow> thrown + body"

text \<open>A JavaScript number that holds an integer or an infinity.\<close>

datatype js_number = Finite int | PlusInfinity | MinusInfinity

record IDownloadedFile =
  file_buffer :: "buffer option"
  file_stream :: "readable option"
  file_mimetype :: mime_value
  file_originalname :: string
  file_size :: "nat option"

record IDownloadResult =
  res_success :: bool
  res_file :: "IDownloadedFile option"
  res_fileName :: "string option"
  res_fileId :: "string option"
  res_mimeType :: "mime_value option"
  res_size :: "nat option"
  res_error :: "string option"
  res_totalBytes :: "js_number option"

text \<open>\<open>error instanceof Error ? error : new Error('Unknown error')\<close> and its message.\<close>

fun as_error :: "thrown \<Rightarrow> thrown" where
  "as_error (Error m) = Error m"
| "as_error NonError = Error ''Unknown error''"

fun message_or :: "string \<Rightarrow> thrown \<Rightarrow> string" where
  "message_or d (Error m) = m"
| "message_or d NonError = d"

subsection \<open>\<open>getFileInfo\<close> and \<open>getFileInfoFromPage\<close>\<close>

definition getFileInfoFromPage :: "env \<Rightarrow> string \<Rightarrow> IFileInfo" where
  "getFileInfoFromPage e fileId =
     (case scrape_name e (''https://drive.google.com/file/d/'' @ fileId @ ''/view'') fileId of
        Inr fileName \<Rightarrow>
          \<lparr>info_name = fileName, info_mimeType = detectMimeTypeFromExtension fileName\<rparr>
      | Inl error \<Rightarrow> \<lparr>info_name = ''file_'' @ fileId, info_mimeType = Absent\<rparr>)"

definition getFileInfo :: "env \<Rightarrow> string \<Rightarrow> IFileInfo" where
  "getFileInfo e fileId =
     (case get_json e (''https://www.googleapis.com/drive/v3/files/'' @ fileId) of
        Inr d \<Rightarrow>
          \<lparr>info_name = api_name d,
           info_mimeType = (case api_mimeType d of None \<Rightarrow> Absent | Some m \<Rightarrow> Mime m)\<rparr>
      | Inl error \<Rightarrow> getFileInfoFromPage e fileId)"

subsection \<open>\<open>retryWithBackoff\<close>\<close>

text \<open>
  The wrapped function is given by what its calls do in order: \<open>fn n\<close> is the outcome of
  call number \<open>n\<close>, counted from 0.  The result comes with the delays slept, in order.
  \<open>lastError\<close> is unassigned until an attempt fails; throwing it unassigned throws
  \<open>undefined\<close>.  \<open>maxRetries\<close> is a JavaScript number; the integers are modelled.
\<close>

function retry_loop ::
  "(nat \<Rightarrow> thrown + 'a) \<Rightarrow> int \<Rightarrow> nat \<Rightarrow> nat \<Rightarrow> thrown option \<Rightarrow> nat list
     \<Rightarrow> (thrown + 'a) \<times> nat list" where
  "retry_loop fn maxRetries baseDelay attempt lastError delays =
     (if int attempt \<le> maxRetries then
        (case fn attempt of
           Inr v \<Rightarrow> (Inr v, delays)
         | Inl error \<Rightarrow>
             if int attempt = maxRetries then (Inl (as_error error), delays)
             else retry_loop fn maxRetries baseDelay (attempt + 1) (Some (as_error error))
                    (delays @ [baseDelay * 2 ^ attempt]))
      else (Inl (case lastError of None \<Rightarrow> NonError | Some e \<Rightarrow> e), delays))"
  by pat_completeness auto
termination
  by (relation "measure (\<lambda>(fn, maxRetries, baseDelay, attempt, lastError, delays).
        nat (maxRetries + 1 - int attempt))") auto

definition retryWithBackoff ::
  "(nat \<Rightarrow> thrown + 'a) \<Rightarrow> int \<Rightarrow> nat \<Rightarrow> (thrown + 'a) \<times> nat list" where
  "retryWithBackoff fn maxRetries baseDelay = retry_loop fn maxRetries baseDelay 0 None []"

subsection \<open>\<open>streamToBuffer\<close>\<close>

text \<open>
  The promise settles at the first of: a chunk that takes the total over
  \<open>MAX_BUFFER_SIZE\<close> (rejected), the \<open>end\<close> event (resolved with the chunks joined), the
  \<open>error\<close> event (rejected with its value), the timer (rejected).
\<close>

definition too_large :: "config \<Rightarrow> thrown" where
  "too_large cfg =
     Error (''File too large to process in memory (>'' @ MAX_BUFFER_MB cfg @ ''MB)'')"

fun drain :: "config \<Rightarrow> buffer list \<Rightarrow> stream_end \<Rightarrow> buffer list \<Rightarrow> nat \<Rightarrow> thrown + buffer" where
  "drain cfg [] stop chunks totalSize =
     (case stop of
        End \<Rightarrow> Inr (concat chunks)
      | Failed error \<Rightarrow> Inl error
      | Stalled \<Rightarrow> Inl (Error ''Timeout while converting stream to buffer''))"
| "drain cfg (chunk # later) stop chunks totalSize =
     (if totalSize + length chunk > MAX_BUFFER_SIZE cfg then Inl (too_large cfg)
      else drain cfg later stop (chunks @ [chunk]) (totalSize + length chunk))"

definition streamToBuffer :: "config \<Rightarrow> readable \<Rightarrow> thrown + buffer" where
  "streamToBuffer cfg stream = drain cfg (stream_chunks stream) (stream_ending stream) [] 0"

subsection \<open>\<open>processDownloadResponse\<close>\<close>

definition googleDocMimeTypes :: "string list" where
  "googleDocMimeTypes =
    [''application/vnd.google-apps.document'',
     ''application/vnd.google-apps.spreadsheet'',
     ''application/vnd.google-apps.presentation'',
     ''application/vnd.google-apps.form'',
     ''application/vnd.google-apps.drawing'']"

text \<open>\<open>googleDocMimeTypes.includes(mimeType || '')\<close>.\<close>

definition is_google_doc :: "mime_value \<Rightarrow> bool" where
  "is_google_doc m =
     (case (if truthy m then m else Mime []) of
        Mime s \<Rightarrow> s \<in> set googleDocMimeTypes
      | _ \<Rightarrow> False)"

text \<open>
  \<open>name.replace(/\.[^.]*$/, '')\<close>: the pattern matches from the last dot to the end, so
  the name loses its last dot and what follows; a name without a dot is unchanged.
\<close>

definition remove_extension :: "string \<Rightarrow> string" where
  "remove_extension name =
     (if CHR ''.'' \<in> set name
      then rev (tl (dropWhile (\<lambda>c. c \<noteq> CHR ''.'') (rev name)))
      else name)"

text \<open>
  \<open>parseInt(s, 10)\<close>: white space, an optional sign, then the longest run of decimal
  digits; \<open>NaN\<close>, here \<open>None\<close>, when there is no digit.  The result is a double: the
  integer read when it is below \<open>2^53\<close>, else the nearest integer with 53 significant
  bits (ties to the even one), and an infinity where that is \<open>2^1024\<close> or more.
\<close>

definition is_digit :: "char \<Rightarrow> bool" where
  "is_digit c = (let n = (of_char c :: nat) in 48 \<le> n \<and> n \<le> 57)"

definition digits_value :: "string \<Rightarrow> nat" where
  "digits_value ds = foldl (\<lambda>n c. 10 * n + (of_char c - 48)) 0 ds"

fun bit_length :: "nat \<Rightarrow> nat" where
  "bit_length n = (if n = 0 then 0 else Suc (bit_length (n div 2)))"

definition to_double :: "nat \<Rightarrow> nat option" where
  "to_double n =
     (if n < 2 ^ 53 then Some n
      else let e = bit_length n - 53;
               q = n div 2 ^ e;
               r = n mod 2 ^ e;
               q' = (if 2 * r > 2 ^ e \<or> (2 * r = 2 ^ e \<and> odd q) then q + 1 else q)
           in if q' * 2 ^ e \<ge> 2 ^ 1024 then None else Some (q' * 2 ^ e))"

definition parseInt10 :: "string \<Rightarrow> js_number option" where
  "parseInt10 s =
     (let t = dropWhile is_space s;
          negative = starts_with t ''-'';
          u = (if starts_with t ''-'' \<or> starts_with t ''+'' then tl t else t);
          ds = takeWhile is_digit u
      in if ds = [] then None
         else (case to_double (digits_value ds) of
                 None \<Rightarrow> Some (if negative then MinusInfinity else PlusInfinity)
               | Some v \<Rightarrow> Some (Finite (if negative then - int v else int v))))"

text \<open>
  \<open>parseInt(headers['content-length'] || '0', 10)\<close>, then \<open>totalBytes || 0\<close>: \<open>NaN\<close> and
  zero give zero.
\<close>

definition header_total_bytes :: "response \<Rightarrow> js_number" where
  "header_total_bytes r =
     (case parseInt10 (case content_length r of
                         None \<Rightarrow> ''0''
                       | Some h \<Rightarrow> if h = [] then ''0'' else h) of
        None \<Rightarrow> Finite 0
      | Some n \<Rightarrow> n)"

text \<open>The name and media type after the export-format adjustment.\<close>

definition adjusted_name :: "IFileInfo \<Rightarrow> string \<Rightarrow> string" where
  "adjusted_name fileInfo exportFormat =
     (if exportFormat \<noteq> ''original'' \<and> is_google_doc (info_mimeType fileInfo)
      then remove_extension (info_name fileInfo) @ ''.'' @ exportFormat
      else info_name fileInfo)"

definition adjusted_mimeType :: "IFileInfo \<Rightarrow> string \<Rightarrow> mime_value" where
  "adjusted_mimeType fileInfo exportFormat =
     (if exportFormat \<noteq> ''original'' \<and> is_google_doc (info_mimeType fileInfo)
      then detectMimeTypeFromExtension (adjusted_name fileInfo exportFormat)
      else info_mimeType fileInfo)"

text \<open>\<open>finalMimeType || 'application/octet-stream'\<close>.\<close>

definition or_octet_stream :: "mime_value \<Rightarrow> mime_value" where
  "or_octet_stream m = (if truthy m then m else Mime octet_stream)"

definition processDownloadResponse ::
  "config \<Rightarrow> response \<Rightarrow> IFileInfo \<Rightarrow> string \<Rightarrow> bool \<Rightarrow> string \<Rightarrow> thrown + IDownloadResult" where
  "processDownloadResponse cfg response fileInfo fileId asBuffer exportFormat =
     (let finalMimeType = adjusted_mimeType fileInfo exportFormat;
          finalFileName = adjusted_name fileInfo exportFormat
      in if asBuffer then
           (case streamToBuffer cfg (resp_data response) of
              Inl error \<Rightarrow> Inl error
            | Inr buffer \<Rightarrow>
                (let detectedMimeType = detectMimeTypeFromBuffer buffer;
                     finalMimeType =
                       (if detectedMimeType \<noteq> octet_stream then Mime detectedMimeType
                        else finalMimeType);
                     finalMimeType =
                       (if \<not> truthy finalMimeType \<or> finalMimeType = Mime octet_stream then
                          (let extensionMimeType = detectMimeTypeFromExtension finalFileName
                           in if truthy extensionMimeType then extensionMimeType
                              else finalMimeType)
                        else finalMimeType)
                 in Inr \<lparr>res_success = True,
                         res_file = Some \<lparr>file_buffer = Some buffer, file_stream = None,
                           file_mimetype = or_octet_stream finalMimeType,
                           file_originalname = finalFileName,
                           file_size = Some (length buffer)\<rparr>,
                         res_fileName = Some finalFileName,
                         res_fileId = Some fileId,
                         res_mimeType = Some (or_octet_stream finalMimeType),
                         res_size = Some (length buffer),
                         res_error = None,
                         res_totalBytes = None\<rparr>))
         else
           Inr \<lparr>res_success = True,
                res_file = Some \<lparr>file_buffer = None, file_stream = Some (resp_data response),
                  file_mimetype = or_octet_stream finalMimeType,
                  file_originalname = finalFileName,
                  file_size = None\<rparr>,
                res_fileName = Some finalFileName,
                res_fileId = Some fileId,
                res_mimeType = Some (or_octet_stream finalMimeType),
                res_size = None,
                res_error = None,
                res_totalBytes = Some (header_total_bytes response)\<rparr>)"

subsection \<open>\<open>downloadLargeFile\<close>\<close>

text \<open>
  \<open>body.match(/confirm=([^&"']+)/)\<close>: the leftmost \<open>confirm=\<close> that is followed by at
  least one character other than \<open>&\<close>, the double quote (code 34) and the single quote
  (code 39); the group is the whole run of such characters.
\<close>

definition is_token_char :: "char \<Rightarrow> bool" where
  "is_token_char c = (c \<noteq> CHR ''&'' \<and> c \<noteq> CHR 0x22 \<and> c \<noteq> CHR 0x27)"

definition confirm_at :: "string \<Rightarrow> string option" where
  "confirm_at s =
     (if starts_with s ''confirm='' \<and> takeWhile is_token_char (drop 8 s) \<noteq> []
      then Some (takeWhile is_token_char (drop 8 s))
      else None)"

definition match_confirm :: "string \<Rightarrow> string option" where
  "match_confirm html = leftmost confirm_at html"

text \<open>
  Calling \<open>match\<close> on a body that is not a string throws a \<open>TypeError\<close>.  The messages
  are those of Node: one for \<open>null\<close>, which has no properties, one for a value whose
  \<open>match\<close> is not a function.  The single quote is the character of code 39.
\<close>

definition match_of_null :: thrown where
  "match_of_null =
     Error (''Cannot read properties of null (reading '' @ [CHR 0x27] @ ''match''
              @ [CHR 0x27] @ '')'')"

definition match_not_a_function :: thrown where
  "match_not_a_function = Error ''confirmResponse.data.match is not a function''"

definition token_not_found :: thrown where
  "token_not_found = Error ''Confirmation token not found for large file''"

definition large_file_try ::
  "config \<Rightarrow> env \<Rightarrow> string \<Rightarrow> IFileInfo \<Rightarrow> bool \<Rightarrow> string \<Rightarrow> thrown + IDownloadResult" where
  "large_file_try cfg e fileId fileInfo asBuffer exportFormat =
     (case get_text e (''https://drive.google.com/uc?export=download&id='' @ fileId) of
        Inl error \<Rightarrow> Inl error
      | Inr Null \<Rightarrow> Inl match_of_null
      | Inr Parsed \<Rightarrow> Inl match_not_a_function
      | Inr (Text html) \<Rightarrow>
          (case match_confirm html of
             None \<Rightarrow> Inl token_not_found
           | Some confirmToken \<Rightarrow>
               (case get_stream e (''https://drive.google.com/uc?export=download&confirm=''
                                     @ confirmToken @ ''&id='' @ fileId) of
                  Inl error \<Rightarrow> Inl error
                | Inr response \<Rightarrow>
                    processDownloadResponse cfg response fileInfo fileId asBuffer
                      exportFormat)))"

text \<open>
  The \<open>catch\<close> of \<open>downloadLargeFile\<close> throws
  \<open>new Error(`Large file download error: ${error instanceof Error ? error.message : 'Unknown'}`)\<close>.
\<close>

definition wrapped :: "thrown \<Rightarrow> thrown" where
  "wrapped error = Error (''Large file download error: '' @ message_or ''Unknown'' error)"

definition downloadLargeFile ::
  "config \<Rightarrow> env \<Rightarrow> string \<Rightarrow> IFileInfo \<Rightarrow> bool \<Rightarrow> string \<Rightarrow> thrown + IDownloadResult" where
  "downloadLargeFile cfg e fileId fileInfo asBuffer exportFormat =
     (case large_file_try cfg e fileId fileInfo asBuffer exportFormat of
        Inl error \<Rightarrow> Inl (wrapped error)
      | Inr result \<Rightarrow> Inr result)"

subsection \<open>\<open>download\<close>\<close>

text \<open>\<open>(headers['content-type'] || '').includes('text/html')\<close>.\<close>

definition is_html :: "response \<Rightarrow> bool" where
  "is_html r =
     js_includes (case content_type r of None \<Rightarrow> [] | Some t \<Rightarrow> t) ''text/html''"

text \<open>The statements after the loop: the \<open>response\<close> variable decides.\<close>

definition after_loop ::
  "config \<Rightarrow> string \<Rightarrow> IFileInfo \<Rightarrow> bool \<Rightarrow> string \<Rightarrow> response option
     \<Rightarrow> thrown + IDownloadResult" where
  "after_loop cfg fileId fileInfo asBuffer exportFormat response =
     (case response of
        None \<Rightarrow> Inl (Error ''All download attempts failed'')
      | Some r \<Rightarrow> processDownloadResponse cfg r fileInfo fileId asBuffer exportFormat)"

text \<open>
  The loop over \<open>downloadUrls\<close>, by the candidates still to try: the head is
  \<open>downloadUrls[i]\<close>, and \<open>i === downloadUrls.length - 1\<close> holds when no candidate follows
  it.  \<open>response\<close> is the loop's variable of that name: an assignment that throws leaves
  it as it was.  What \<open>downloadLargeFile\<close> throws is caught by the loop's own \<open>catch\<close>,
  which throws it again since the candidate is the last.
\<close>

fun download_loop ::
  "config \<Rightarrow> env \<Rightarrow> string \<Rightarrow> IFileInfo \<Rightarrow> bool \<Rightarrow> string \<Rightarrow> string list \<Rightarrow> response option
     \<Rightarrow> thrown + IDownloadResult" where
  "download_loop cfg e fileId fileInfo asBuffer exportFormat [] response =
     after_loop cfg fileId fileInfo asBuffer exportFormat response"
| "download_loop cfg e fileId fileInfo asBuffer exportFormat (u # later) response =
     (case get_stream e u of
        Inr r \<Rightarrow>
          if is_html r then
            (if later = [] then
               (case downloadLargeFile cfg e fileId fileInfo asBuffer exportFormat of
                  Inr result \<Rightarrow> Inr result
                | Inl error \<Rightarrow> Inl (as_error error))
             else download_loop cfg e fileId fileInfo asBuffer exportFormat later (Some r))
          else after_loop cfg fileId fileInfo asBuffer exportFormat (Some r)
      | Inl error \<Rightarrow>
          if later = [] then Inl (as_error error)
          else download_loop cfg e fileId fileInfo asBuffer exportFormat later response)"

text \<open>
  \<open>getDownloadUrls\<close> is declared on \<open>string | null\<close>.  The media type
  \<open>getFileInfoFromPage\<close> derives from a name can be neither; on it the call
  \<open>mimeType?.includes\<close> throws a \<open>TypeError\<close>, here with the message Node gives when the
  sources run as they are written.
\<close>

definition includes_not_a_function :: thrown where
  "includes_not_a_function = Error ''mimeType?.includes is not a function''"

fun string_or_null :: "mime_value \<Rightarrow> string option" where
  "string_or_null (Mime m) = Some m"
| "string_or_null m = None"

definition download_try ::
  "config \<Rightarrow> env \<Rightarrow> js_arg \<Rightarrow> IDownloadOptions \<Rightarrow> thrown + IDownloadResult" where
  "download_try cfg e url options =
     (let maxRetries =
            (case opt_maxRetries options of None \<Rightarrow> DEFAULT_MAX_RETRIES cfg | Some n \<Rightarrow> n);
          exportFormat =
            (case opt_exportFormat options of None \<Rightarrow> ''original'' | Some f \<Rightarrow> f);
          asBuffer = (case opt_asBuffer options of None \<Rightarrow> True | Some b \<Rightarrow> b)
      in case extractFileId url of
           Inl error \<Rightarrow> Inl error
         | Inr fileId \<Rightarrow>
             (case fst (retryWithBackoff (\<lambda>n. Inr (getFileInfo e fileId)) maxRetries
                          (DEFAULT_RETRY_DELAY cfg)) of
                Inl error \<Rightarrow> Inl error
              | Inr fileInfo \<Rightarrow>
                  if info_mimeType fileInfo = NotAString then Inl includes_not_a_function
                  else download_loop cfg e fileId fileInfo asBuffer exportFormat
                         (getDownloadUrls fileId (string_or_null (info_mimeType fileInfo))
                            exportFormat)
                         None))"

text \<open>
  The \<open>catch\<close> at the end of \<open>download\<close> turns what was thrown into a result:
  \<open>{ success: false, error: errorMessage }\<close>.
\<close>

definition failure :: "string \<Rightarrow> IDownloadResult" where
  "failure errorMessage =
     \<lparr>res_success = False, res_file = None, res_fileName = None, res_fileId = None,
      res_mimeType = None, res_size = None, res_error = Some errorMessage,
      res_totalBytes = None\<rparr>"

definition outcome :: "thrown + IDownloadResult \<Rightarrow> IDownloadResult" where
  "outcome x =
     (case x of
        Inr result \<Rightarrow> result
      | Inl error \<Rightarrow> failure (message_or ''Unknown error'' error))"

definition download :: "config \<Rightarrow> env \<Rightarrow> js_arg \<Rightarrow> IDownloadOptions \<Rightarrow> IDownloadResult" where
  "download cfg e url options = outcome (download_try cfg e url options)"

section \<open>The claims' own notions\<close>

subsection \<open>What a pattern of \<open>fileIdPatterns\<close> matches, and the group it captures\<close>

text \<open>
  An occurrence of a pattern in a string: the text before it, the pattern's first
  literal, a non-empty run of identifier characters, its second literal, the text after.
  A pattern matches a string that has an occurrence.  The group a regular expression
  search captures is that of the occurrence that starts first and, among those starting
  there, has the longest run.
\<close>

definition occurs :: "id_pattern \<Rightarrow> string \<Rightarrow> string \<Rightarrow> string \<Rightarrow> string \<Rightarrow> bool" where
  "occurs p s pre g post \<longleftrightarrow>
     s = pre @ before p @ g @ after p @ post \<and> g \<noteq> [] \<and> (\<forall>c \<in> set g. is_id_char c)"

definition matches :: "id_pattern \<Rightarrow> string \<Rightarrow> bool" where
  "matches p s \<longleftrightarrow> (\<exists>pre g post. occurs p s pre g post)"

definition regex_group :: "id_pattern \<Rightarrow> string \<Rightarrow> string \<Rightarrow> bool" where
  "regex_group p s g \<longleftrightarrow>
     (\<exists>pre post. occurs p s pre g post
        \<and> (\<forall>pre' g' post'. occurs p s pre' g' post'
              \<longrightarrow> length pre \<le> length pre'
                  \<and> (length pre' = length pre \<longrightarrow> length g' \<le> length g)))"

subsection \<open>The confirmation token of a page\<close>

text \<open>
  The token that \<open>/confirm=([^&"']+)/\<close> captures in a page: the run of token characters
  after the first \<open>confirm=\<close> that is followed by one, up to the end of the page or the
  next character that is not a token character.
\<close>

definition confirm_token :: "string \<Rightarrow> string \<Rightarrow> bool" where
  "confirm_token html token \<longleftrightarrow>
     (\<exists>pre post. html = pre @ ''confirm='' @ token @ post \<and> token \<noteq> []
        \<and> (\<forall>c \<in> set token. is_token_char c)
        \<and> (post = [] \<or> \<not> is_token_char (hd post))
        \<and> (\<forall>pre' c post'. html = pre' @ ''confirm='' @ c # post' \<and> is_token_char c
              \<longrightarrow> length pre \<le> length pre'))"

subsection \<open>The candidate order as the specification words it\<close>




section \<open>Predicates of the claims\<close>

text \<open>
  What a successful result holds: a file with its buffer and no stream when \<open>asBuffer\<close>,
  with its stream and no buffer otherwise.
\<close>

definition populated :: "bool \<Rightarrow> IDownloadResult \<Rightarrow> bool" where
  "populated asBuffer result =
     (case res_file result of
        None \<Rightarrow> False
      | Some f \<Rightarrow>
          if asBuffer then file_buffer f \<noteq> None \<and> file_stream f = None
          else file_buffer f = None \<and> file_stream f \<noteq> None)"

text \<open>
  The transport names its errors: no streaming request throws an \<open>Error\<close> whose message is
  empty, and no body stream fails with one.
\<close>

definition names_errors :: "env \<Rightarrow> bool" where
  "names_errors e =
     (\<forall>u. get_stream e u \<noteq> Inl (Error [])
          \<and> (\<forall>r. get_stream e u = Inr r
                 \<longrightarrow> stream_ending (resp_data r) \<noteq> Failed (Error [])))"

text \<open>A thrown value whose message, as the \<open>catch\<close> of \<open>download\<close> reads it, is not empty.\<close>

definition named :: "thrown \<Rightarrow> bool" where
  "named error = (message_or ''Unknown error'' error \<noteq> [])"

text \<open>A candidate answers with an HTML page.\<close>

definition answers_html :: "env \<Rightarrow> string \<Rightarrow> bool" where
  "answers_html e u = (case get_stream e u of Inr r \<Rightarrow> is_html r | Inl error \<Rightarrow> False)"

section \<open>Example inputs\<close>

text \<open>Wrapped functions for \<open>retryWithBackoff\<close>, by the outcome of each call.\<close>

definition succeeds_at_once :: "nat \<Rightarrow> thrown + nat" where
  "succeeds_at_once n = Inr 7"

definition throws_a_value_once :: "nat \<Rightarrow> thrown + nat" where
  "throws_a_value_once n = (if n < 1 then Inl NonError else Inr 7)"

definition fails_twice :: "nat \<Rightarrow> thrown + nat" where
  "fails_twice n = (if n = 0 then Inl (Error ''first'') else if n = 1 then Inl (Error ''second'') else Inr 7)"


text \<open>A configuration with the documented defaults, and options that set nothing.\<close>

definition example_config :: config where
  "example_config =
     \<lparr>DEFAULT_TIMEOUT = 30000, DEFAULT_MAX_RETRIES = 3, DEFAULT_RETRY_DELAY = 1000,
      LARGE_FILE_TIMEOUT = 300000, MAX_BUFFER_SIZE = 104857600, MAX_BUFFER_MB = ''100''\<rparr>"

definition no_options :: IDownloadOptions where
  "no_options =
     \<lparr>opt_timeout = None, opt_maxRetries = None, opt_retryDelay = None,
      opt_exportFormat = None, opt_asBuffer = None\<rparr>"

definition stream_options :: IDownloadOptions where
  "stream_options = no_options\<lparr>opt_asBuffer := Some False\<rparr>"

text \<open>Responses: a PDF in two chunks, an HTML page, a plain text.\<close>

definition pdf_response :: response where
  "pdf_response =
     \<lparr>content_type = Some ''application/pdf'', content_length = Some ''8'',
      resp_data = \<lparr>stream_chunks = [''%PDF'', ''-1.4''], stream_ending = End\<rparr>\<rparr>"

definition html_response :: response where
  "html_response =
     \<lparr>content_type = Some ''text/html; charset=utf-8'', content_length = None,
      resp_data = \<lparr>stream_chunks = [''<html>''], stream_ending = End\<rparr>\<rparr>"

definition text_response :: response where
  "text_response =
     \<lparr>content_type = Some ''text/plain'', content_length = Some ''5'',
      resp_data = \<lparr>stream_chunks = [''hello''], stream_ending = End\<rparr>\<rparr>"

text \<open>
  Transports.  In all of them the metadata request fails and the view page yields the name
  \<open>report.pdf\<close>.  \<open>serves_pdf\<close> answers every streaming request with the PDF.
  \<open>serves_html\<close> answers every candidate with an HTML page, serves a confirmation page
  with the token \<open>t0K_9xZ\<close>, and answers the confirmed request with the PDF.
  \<open>serves_html_no_token\<close> differs in the confirmation page, which has no token.
  \<open>fails_unnamed\<close> fails every streaming request with an \<open>Error\<close> whose message is empty.
  \<open>html_first\<close> answers the first candidate of a plain file with an HTML page and every
  other request with the PDF.
\<close>

definition serves_pdf :: env where
  "serves_pdf =
     \<lparr>get_json = (\<lambda>u. Inl (Error ''Request failed with status code 403'')),
      scrape_name = (\<lambda>u fileId. Inr ''report.pdf''),
      get_stream = (\<lambda>u. Inr pdf_response),
      get_text = (\<lambda>u. Inr (Text []))\<rparr>"

text \<open>
  A confirmation page: its first \<open>confirm=\<close> has no token character after it, the second
  has the token, a third comes later.
\<close>

definition confirmation_page :: string where
  "confirmation_page =
     ''<i confirm=&><a href=/uc?export=download&confirm=t0K_9xZ&id=abc>confirm=zz</a>''"

definition serves_html :: env where
  "serves_html =
     serves_pdf\<lparr>get_stream :=
         (\<lambda>u. if u = ''https://drive.google.com/uc?export=download&confirm=t0K_9xZ&id=abc''
               then Inr pdf_response else Inr html_response),
       get_text := (\<lambda>u. Inr (Text confirmation_page))\<rparr>"

definition serves_html_no_token :: env where
  "serves_html_no_token = serves_html\<lparr>get_text := (\<lambda>u. Inr (Text ''<p>confirm=&</p>''))\<rparr>"

definition fails_unnamed :: env where
  "fails_unnamed = serves_pdf\<lparr>get_stream := (\<lambda>u. Inl (Error []))\<rparr>"

definition html_first :: env where
  "html_first =
     serves_pdf\<lparr>get_stream :=
         (\<lambda>u. if u = ''https://drive.usercontent.google.com/download?id=abc&export=download&authuser=0''
               then Inr html_response else Inr pdf_response)\<rparr>"

definition example_url :: js_arg where
  "example_url = JsString ''https://drive.google.com/file/d/abc/view''"

definition example_info :: IFileInfo where
  "example_info = \<lparr>info_name = ''report.pdf'', info_mimeType = Mime ''application/pdf''\<rparr>"

definition notes_info :: IFileInfo where
  "notes_info = \<lparr>info_name = ''notes.txt'', info_mimeType = Absent\<rparr>"

section \<open>String primitives against the library\<close>

lemma starts_with_prefix: "starts_with s t \<longleftrightarrow> prefix t s"
  by (induction s t rule: starts_with.induct) auto

lemma js_includes_sublist: "js_includes s t \<longleftrightarrow> sublist t s"
  by (induction s) (auto simp: starts_with_prefix sublist_Cons_right)

lemma split_not_empty: "split d s \<noteq> []"
  by (induction s) auto

section \<open>The identifier extractor\<close>

lemma group_backtrack_nonempty:
  "group_backtrack n suf rest = Some g \<Longrightarrow> n \<le> length rest \<Longrightarrow> g \<noteq> []"
  by (induction n) (auto split: if_splits)

lemma match_at_nonempty: "match_at p s = Some g \<Longrightarrow> g \<noteq> []"
  unfolding match_at_def Let_def
  by (auto split: if_splits dest!: group_backtrack_nonempty
      intro: order_trans[OF length_takeWhile_le])

lemma leftmost_Some: "leftmost m s = Some g \<Longrightarrow> \<exists>t. suffix t s \<and> m t = Some g"
proof (induction s)
  case Nil
  then show ?case by auto
next
  case (Cons c cs)
  show ?case
  proof (cases "m (c # cs)")
    case None
    with Cons obtain t where "suffix t cs" "m t = Some g" by auto
    then show ?thesis by (auto intro: suffix_ConsI)
  next
    case (Some r)
    with Cons.prems show ?thesis by auto
  qed
qed

lemma leftmost_None: "leftmost m s = None \<longleftrightarrow> (\<forall>t. suffix t s \<longrightarrow> m t = None)"
proof (induction s)
  case Nil
  show ?case by simp
next
  case (Cons c cs)
  show ?case
    by (auto simp: Cons suffix_Cons split: option.splits)
qed

lemma match_id_nonempty: "match_id s p = Some g \<Longrightarrow> g \<noteq> []"
  unfolding match_id_def by (auto dest!: leftmost_Some match_at_nonempty)

lemma first_id_Inl:
  "first_id ps s = Inl e \<longleftrightarrow> e = id_not_found \<and> (\<forall>p \<in> set ps. match_id s p = None)"
  by (induction ps) (auto split: option.splits dest: match_id_nonempty)

lemma first_id_Inr:
  "first_id ps s = Inr g \<longleftrightarrow>
     (\<exists>earlier p later. ps = earlier @ p # later
        \<and> (\<forall>q \<in> set earlier. match_id s q = None) \<and> match_id s p = Some g)"
  (is "?L ps \<longleftrightarrow> ?R ps")
proof (induction ps)
  case Nil
  show ?case by simp
next
  case (Cons a ps)
  show ?case
  proof (cases "match_id s a")
    case None
    have "?R (a # ps) \<longleftrightarrow> ?R ps"
    proof
      assume "?R (a # ps)"
      then obtain earlier p later where
        e: "a # ps = earlier @ p # later" "\<forall>q \<in> set earlier. match_id s q = None"
           "match_id s p = Some g"
        by blast
      with None obtain e' where "earlier = a # e'"
        by (cases earlier) auto
      with e show "?R ps" by auto
    next
      assume "?R ps"
      then obtain earlier p later where
        e: "ps = earlier @ p # later" "\<forall>q \<in> set earlier. match_id s q = None"
           "match_id s p = Some g"
        by blast
      with None have "a # ps = (a # earlier) @ p # later
          \<and> (\<forall>q \<in> set (a # earlier). match_id s q = None) \<and> match_id s p = Some g"
        by simp
      then show "?R (a # ps)" by blast
    qed
    with None Cons show ?thesis by simp
  next
    case (Some r)
    then have r: "r \<noteq> []" by (rule match_id_nonempty)
    have "?R (a # ps) \<longleftrightarrow> r = g"
    proof
      assume "?R (a # ps)"
      then obtain earlier p later where
        e: "a # ps = earlier @ p # later" "\<forall>q \<in> set earlier. match_id s q = None"
           "match_id s p = Some g"
        by blast
      with Some have "earlier = []" by (cases earlier) auto
      with e Some show "r = g" by simp
    next
      assume "r = g"
      with Some have "a # ps = [] @ a # ps
          \<and> (\<forall>q \<in> set []. match_id s q = None) \<and> match_id s a = Some g"
        by simp
      then show "?R (a # ps)" by blast
    qed
    with Some r show ?thesis by simp
  qed
qed

lemma group_backtrack_Some:
  "group_backtrack n suf rest = Some g \<longleftrightarrow>
     (\<exists>k. 1 \<le> k \<and> k \<le> n \<and> prefix suf (drop k rest) \<and> g = take k rest
          \<and> (\<forall>j. k < j \<and> j \<le> n \<longrightarrow> \<not> prefix suf (drop j rest)))"
proof (induction n)
  case 0
  show ?case by simp
next
  case (Suc n)
  show ?case
  proof (cases "prefix suf (drop (Suc n) rest)")
    case True
    have "(\<exists>k. 1 \<le> k \<and> k \<le> Suc n \<and> prefix suf (drop k rest) \<and> g = take k rest
          \<and> (\<forall>j. k < j \<and> j \<le> Suc n \<longrightarrow> \<not> prefix suf (drop j rest)))
        \<longleftrightarrow> g = take (Suc n) rest"
    proof
      assume "\<exists>k. 1 \<le> k \<and> k \<le> Suc n \<and> prefix suf (drop k rest) \<and> g = take k rest
          \<and> (\<forall>j. k < j \<and> j \<le> Suc n \<longrightarrow> \<not> prefix suf (drop j rest))"
      then obtain k where k: "k \<le> Suc n" "g = take k rest"
        "\<forall>j. k < j \<and> j \<le> Suc n \<longrightarrow> \<not> prefix suf (drop j rest)"
        by blast
      with True have "k = Suc n" by (metis le_neq_implies_less order_refl)
      with k show "g = take (Suc n) rest" by simp
    next
      assume "g = take (Suc n) rest"
      with True show "\<exists>k. 1 \<le> k \<and> k \<le> Suc n \<and> prefix suf (drop k rest) \<and> g = take k rest
          \<and> (\<forall>j. k < j \<and> j \<le> Suc n \<longrightarrow> \<not> prefix suf (drop j rest))"
        by (intro exI[of _ "Suc n"]) auto
    qed
    with True show ?thesis by (auto simp: starts_with_prefix)
  next
    case False
    have "(\<exists>k. 1 \<le> k \<and> k \<le> Suc n \<and> prefix suf (drop k rest) \<and> g = take k rest
          \<and> (\<forall>j. k < j \<and> j \<le> Suc n \<longrightarrow> \<not> prefix suf (drop j rest)))
        \<longleftrightarrow> (\<exists>k. 1 \<le> k \<and> k \<le> n \<and> prefix suf (drop k rest) \<and> g = take k rest
          \<and> (\<forall>j. k < j \<and> j \<le> n \<longrightarrow> \<not> prefix suf (drop j rest)))"
      (is "?A \<longleftrightarrow> ?B")
    proof
      assume ?A
      then obtain k where k: "1 \<le> k" "k \<le> Suc n" "prefix suf (drop k rest)" "g = take k rest"
        "\<forall>j. k < j \<and> j \<le> Suc n \<longrightarrow> \<not> prefix suf (drop j rest)"
        by blast
      with False have "k \<noteq> Suc n" by auto
      with k have "k \<le> n" by simp
      with k show ?B by (intro exI[of _ k]) auto
    next
      assume ?B
      then obtain k where k: "1 \<le> k" "k \<le> n" "prefix suf (drop k rest)" "g = take k rest"
        "\<forall>j. k < j \<and> j \<le> n \<longrightarrow> \<not> prefix suf (drop j rest)"
        by blast
      have "\<forall>j. k < j \<and> j \<le> Suc n \<longrightarrow> \<not> prefix suf (drop j rest)"
        using k(5) False by (metis le_SucE)
      with k show ?A by (intro exI[of _ k]) auto
    qed
    with False Suc show ?thesis by (simp add: starts_with_prefix)
  qed
qed

lemma group_backtrack_None:
  "group_backtrack n suf rest = None \<longleftrightarrow>
     (\<forall>k. 1 \<le> k \<and> k \<le> n \<longrightarrow> \<not> prefix suf (drop k rest))"
proof (induction n)
  case 0
  show ?case by simp
next
  case (Suc n)
  show ?case
    using Suc by (auto simp: starts_with_prefix le_Suc_eq)
qed

text \<open>A pattern occurs at the front of a string.\<close>

lemma match_at_None:
  "match_at p t = None \<longleftrightarrow>
     \<not> (\<exists>g post. t = before p @ g @ after p @ post \<and> g \<noteq> [] \<and> (\<forall>c \<in> set g. is_id_char c))"
proof
  assume none: "match_at p t = None"
  show "\<not> (\<exists>g post. t = before p @ g @ after p @ post \<and> g \<noteq> []
            \<and> (\<forall>c \<in> set g. is_id_char c))"
  proof
    assume "\<exists>g post. t = before p @ g @ after p @ post \<and> g \<noteq> []
            \<and> (\<forall>c \<in> set g. is_id_char c)"
    then obtain g post where t: "t = before p @ g @ after p @ post" and g: "g \<noteq> []"
      and ids: "\<forall>c \<in> set g. is_id_char c"
      by blast
    let ?rest = "g @ after p @ post"
    from ids have "takeWhile is_id_char ?rest = g @ takeWhile is_id_char (after p @ post)"
      by (simp add: takeWhile_append2)
    then have len: "length g \<le> length (takeWhile is_id_char ?rest)" by simp
    from g have one: "1 \<le> length g" by (cases g) auto
    have "prefix (after p) (drop (length g) ?rest)" by simp
    with len one have "group_backtrack (length (takeWhile is_id_char ?rest)) (after p) ?rest
        \<noteq> None"
      unfolding group_backtrack_None by blast
    with t have "match_at p t \<noteq> None"
      by (simp add: match_at_def Let_def starts_with_prefix)
    with none show False by simp
  qed
next
  assume no: "\<not> (\<exists>g post. t = before p @ g @ after p @ post \<and> g \<noteq> []
            \<and> (\<forall>c \<in> set g. is_id_char c))"
  show "match_at p t = None"
  proof (rule ccontr)
    assume "match_at p t \<noteq> None"
    then obtain g where some: "match_at p t = Some g" by auto
    then have pre: "prefix (before p) t"
      by (auto simp: match_at_def starts_with_prefix split: if_splits)
    then obtain rest where t: "t = before p @ rest" by (auto simp: prefix_def)
    with some have "group_backtrack (length (takeWhile is_id_char rest)) (after p) rest = Some g"
      by (simp add: match_at_def Let_def starts_with_prefix)
    then obtain k where k: "1 \<le> k" "k \<le> length (takeWhile is_id_char rest)"
      "prefix (after p) (drop k rest)" "g = take k rest"
      unfolding group_backtrack_Some by blast
    from k(3) obtain post where post: "drop k rest = after p @ post" by (auto simp: prefix_def)
    have "rest = take k rest @ drop k rest" by simp
    with post k(4) have rest: "rest = g @ after p @ post" by simp
    have "g = take k (takeWhile is_id_char rest)"
      using k(2,4) by (metis takeWhile_dropWhile_id take_append diff_is_0_eq' take0
          append_Nil2 order_refl take_all_iff)
    then have ids: "\<forall>c \<in> set g. is_id_char c"
      by (auto dest!: in_set_takeD set_takeWhileD)
    from k(1,2,4) have "g \<noteq> []"
      by (metis One_nat_def Suc_le_lessD le_trans length_takeWhile_le less_le_trans
          list.size(3) not_less0 take_eq_Nil)
    with t rest ids no show False by blast
  qed
qed

lemma match_id_None:
  "match_id s p = None \<longleftrightarrow>
     \<not> (\<exists>pre g post. s = pre @ before p @ g @ after p @ post \<and> g \<noteq> []
            \<and> (\<forall>c \<in> set g. is_id_char c))"
proof -
  have "match_id s p = None \<longleftrightarrow>
      (\<forall>t. suffix t s \<longrightarrow>
         \<not> (\<exists>g post. t = before p @ g @ after p @ post \<and> g \<noteq> []
               \<and> (\<forall>c \<in> set g. is_id_char c)))"
    by (simp add: match_id_def leftmost_None match_at_None)
  also have "\<dots> \<longleftrightarrow> \<not> (\<exists>pre g post. s = pre @ before p @ g @ after p @ post \<and> g \<noteq> []
            \<and> (\<forall>c \<in> set g. is_id_char c))"
    unfolding suffix_def by blast
  finally show ?thesis .
qed

subsection \<open>The captured group\<close>

text \<open>
  The search returns the group of the leftmost occurrence, the longest the occurrence
  allows: \<open>match_id\<close> agrees with \<open>regex_group\<close>.
\<close>

lemma leftmost_Some_iff:
  "leftmost m s = Some g \<longleftrightarrow>
     (\<exists>pre t. s = pre @ t \<and> m t = Some g
        \<and> (\<forall>pre' t'. s = pre' @ t' \<and> length pre' < length pre \<longrightarrow> m t' = None))"
  (is "_ \<longleftrightarrow> ?R s")
proof (induction s)
  case Nil
  show ?case by auto
next
  case (Cons c cs)
  show ?case
  proof (cases "m (c # cs)")
    case (Some r)
    have "?R (c # cs) \<longleftrightarrow> r = g"
    proof
      assume "?R (c # cs)"
      then obtain pre t where p: "c # cs = pre @ t" "m t = Some g"
        "\<forall>pre' t'. c # cs = pre' @ t' \<and> length pre' < length pre \<longrightarrow> m t' = None"
        by blast
      have "pre = []"
      proof (rule ccontr)
        assume "pre \<noteq> []"
        then have "c # cs = [] @ (c # cs) \<and> length ([] :: string) < length pre" by simp
        with p(3) have "m (c # cs) = None" by blast
        with Some show False by simp
      qed
      with p Some show "r = g" by simp
    next
      assume "r = g"
      with Some have "c # cs = [] @ (c # cs) \<and> m (c # cs) = Some g
        \<and> (\<forall>pre' t'. c # cs = pre' @ t' \<and> length pre' < length ([] :: string)
              \<longrightarrow> m t' = None)"
        by simp
      then show "?R (c # cs)" by blast
    qed
    with Some show ?thesis by simp
  next
    case None
    have "?R (c # cs) \<longleftrightarrow> ?R cs"
    proof
      assume "?R (c # cs)"
      then obtain pre t where p: "c # cs = pre @ t" "m t = Some g"
        "\<forall>pre' t'. c # cs = pre' @ t' \<and> length pre' < length pre \<longrightarrow> m t' = None"
        by blast
      from p(1,2) None obtain pre0 where pre: "pre = c # pre0" "cs = pre0 @ t"
        by (cases pre) auto
      have "\<forall>pre' t'. cs = pre' @ t' \<and> length pre' < length pre0 \<longrightarrow> m t' = None"
      proof (intro allI impI)
        fix pre' t' assume "cs = pre' @ t' \<and> length pre' < length pre0"
        then have "c # cs = (c # pre') @ t' \<and> length (c # pre') < length pre"
          using pre by simp
        with p(3) show "m t' = None" by blast
      qed
      with pre p(2) show "?R cs" by blast
    next
      assume "?R cs"
      then obtain pre t where p: "cs = pre @ t" "m t = Some g"
        "\<forall>pre' t'. cs = pre' @ t' \<and> length pre' < length pre \<longrightarrow> m t' = None"
        by blast
      have "\<forall>pre' t'. c # cs = pre' @ t' \<and> length pre' < length (c # pre) \<longrightarrow> m t' = None"
      proof (intro allI impI)
        fix pre' t' assume a: "c # cs = pre' @ t' \<and> length pre' < length (c # pre)"
        show "m t' = None"
        proof (cases pre')
          case Nil
          with a None show ?thesis by simp
        next
          case (Cons x xs)
          with a have "cs = xs @ t' \<and> length xs < length pre" by simp
          with p(3) show ?thesis by blast
        qed
      qed
      moreover from p(1) have "c # cs = (c # pre) @ t" by simp
      ultimately show "?R (c # cs)" using p(2) by blast
    qed
    with None Cons show ?thesis by simp
  qed
qed

lemma takeWhile_covers:
  "\<forall>c \<in> set g. P c \<Longrightarrow> length g \<le> length (takeWhile P (g @ x))"
  by (simp add: takeWhile_append2)

lemma take_within_takeWhile:
  assumes "j \<le> length (takeWhile P xs)"
  shows "\<forall>c \<in> set (take j xs). P c"
proof
  fix c assume "c \<in> set (take j xs)"
  then obtain i where i: "i < length (take j xs)" "c = take j xs ! i"
    by (auto simp: in_set_conv_nth)
  then have ij: "i < j" by simp
  with assms have lt: "i < length (takeWhile P xs)" by simp
  then have "takeWhile P xs ! i = xs ! i" by (rule takeWhile_nth)
  moreover from lt have "takeWhile P xs ! i \<in> set (takeWhile P xs)" by (rule nth_mem)
  ultimately have "P (xs ! i)" by (auto dest: set_takeWhileD)
  with i ij show "P c" by simp
qed

lemma match_at_Some_iff:
  "match_at p t = Some g \<longleftrightarrow>
     (\<exists>post. t = before p @ g @ after p @ post \<and> g \<noteq> [] \<and> (\<forall>c \<in> set g. is_id_char c)
        \<and> (\<forall>g' post'. t = before p @ g' @ after p @ post' \<and> (\<forall>c \<in> set g'. is_id_char c)
              \<longrightarrow> length g' \<le> length g))"
proof
  assume some: "match_at p t = Some g"
  then have "prefix (before p) t"
    by (auto simp: match_at_def starts_with_prefix split: if_splits)
  then obtain rest where t: "t = before p @ rest" by (auto simp: prefix_def)
  let ?n = "length (takeWhile is_id_char rest)"
  from some t have "group_backtrack ?n (after p) rest = Some g"
    by (simp add: match_at_def Let_def starts_with_prefix)
  then obtain k where k: "1 \<le> k" "k \<le> ?n" "prefix (after p) (drop k rest)" "g = take k rest"
    and top: "\<forall>j. k < j \<and> j \<le> ?n \<longrightarrow> \<not> prefix (after p) (drop j rest)"
    unfolding group_backtrack_Some by blast
  have n: "?n \<le> length rest" by (rule length_takeWhile_le)
  with k have len: "length g = k" by simp
  from k(3) obtain post where post: "drop k rest = after p @ post" by (auto simp: prefix_def)
  have "rest = take k rest @ drop k rest" by simp
  with post k(4) have rest: "rest = g @ after p @ post" by simp
  have ids: "\<forall>c \<in> set g. is_id_char c"
    unfolding k(4) using k(2) by (rule take_within_takeWhile)
  from len k(1) have ne: "g \<noteq> []" by auto
  have longest: "length g' \<le> length g"
    if "t = before p @ g' @ after p @ post'" "\<forall>c \<in> set g'. is_id_char c" for g' post'
  proof (rule ccontr)
    assume "\<not> length g' \<le> length g"
    then have gt: "k < length g'" using len by simp
    from that(1) t have r: "rest = g' @ after p @ post'" by simp
    have "length g' \<le> ?n" unfolding r using that(2) by (rule takeWhile_covers)
    moreover have "prefix (after p) (drop (length g') rest)" unfolding r by simp
    ultimately show False using top gt by blast
  qed
  from t rest ne ids longest
  show "\<exists>post. t = before p @ g @ after p @ post \<and> g \<noteq> [] \<and> (\<forall>c \<in> set g. is_id_char c)
        \<and> (\<forall>g' post'. t = before p @ g' @ after p @ post' \<and> (\<forall>c \<in> set g'. is_id_char c)
              \<longrightarrow> length g' \<le> length g)"
    by blast
next
  assume "\<exists>post. t = before p @ g @ after p @ post \<and> g \<noteq> [] \<and> (\<forall>c \<in> set g. is_id_char c)
        \<and> (\<forall>g' post'. t = before p @ g' @ after p @ post' \<and> (\<forall>c \<in> set g'. is_id_char c)
              \<longrightarrow> length g' \<le> length g)"
  then obtain post where t: "t = before p @ g @ after p @ post" and ne: "g \<noteq> []"
    and ids: "\<forall>c \<in> set g. is_id_char c"
    and longest: "\<forall>g' post'. t = before p @ g' @ after p @ post' \<and> (\<forall>c \<in> set g'. is_id_char c)
              \<longrightarrow> length g' \<le> length g"
    by blast
  define rest where "rest = g @ after p @ post"
  let ?n = "length (takeWhile is_id_char rest)"
  have t_rest: "t = before p @ rest" by (simp add: t rest_def)
  have le: "length g \<le> ?n" unfolding rest_def using ids by (rule takeWhile_covers)
  have one: "1 \<le> length g" using ne by (cases g) auto
  have pre: "prefix (after p) (drop (length g) rest)" by (simp add: rest_def)
  have tk: "g = take (length g) rest" by (simp add: rest_def)
  have top: "\<forall>j. length g < j \<and> j \<le> ?n \<longrightarrow> \<not> prefix (after p) (drop j rest)"
  proof (intro allI impI notI)
    fix j assume j: "length g < j \<and> j \<le> ?n" and pj: "prefix (after p) (drop j rest)"
    from pj obtain post' where d: "drop j rest = after p @ post'" by (auto simp: prefix_def)
    have "rest = take j rest @ after p @ post'"
      unfolding d[symmetric] by (rule append_take_drop_id[symmetric])
    with t_rest have t': "t = before p @ take j rest @ after p @ post'" by simp
    have "\<forall>c \<in> set (take j rest). is_id_char c"
      using j by (intro take_within_takeWhile) simp
    with longest t' have "length (take j rest) \<le> length g" by blast
    moreover have "?n \<le> length rest" by (rule length_takeWhile_le)
    ultimately show False using j by simp
  qed
  have "group_backtrack ?n (after p) rest = Some g"
    unfolding group_backtrack_Some using one le pre tk top by blast
  with t_rest show "match_at p t = Some g"
    by (simp add: match_at_def Let_def starts_with_prefix)
qed


lemma occurs_front:
  "match_at p t = None \<longleftrightarrow> \<not> (\<exists>g post. occurs p t [] g post)"
  by (simp add: match_at_None occurs_def)

lemma same_length_prefix:
  "pre @ t = pre' @ t' \<Longrightarrow> length pre = length pre' \<Longrightarrow> pre = pre' \<and> t = t'"
  by simp

lemma match_id_Some_iff: "match_id s p = Some g \<longleftrightarrow> regex_group p s g"
proof
  assume "match_id s p = Some g"
  then obtain pre t where s: "s = pre @ t" and at: "match_at p t = Some g"
    and first: "\<forall>pre' t'. s = pre' @ t' \<and> length pre' < length pre \<longrightarrow> match_at p t' = None"
    unfolding match_id_def leftmost_Some_iff by blast
  from at obtain post where t: "t = before p @ g @ after p @ post" and ne: "g \<noteq> []"
    and ids: "\<forall>c \<in> set g. is_id_char c"
    and longest: "\<forall>g' post'. t = before p @ g' @ after p @ post' \<and> (\<forall>c \<in> set g'. is_id_char c)
              \<longrightarrow> length g' \<le> length g"
    unfolding match_at_Some_iff by blast
  from s t ne ids have here: "occurs p s pre g post" by (simp add: occurs_def)
  have "length pre \<le> length pre' \<and> (length pre' = length pre \<longrightarrow> length g' \<le> length g)"
    if o: "occurs p s pre' g' post'" for pre' g' post'
  proof -
    let ?t' = "before p @ g' @ after p @ post'"
    from o have s': "s = pre' @ ?t'" and ids': "\<forall>c \<in> set g'. is_id_char c" and ne': "g' \<noteq> []"
      by (simp_all add: occurs_def)
    have "occurs p ?t' [] g' post'" using ids' ne' by (simp add: occurs_def)
    then have some: "match_at p ?t' \<noteq> None" unfolding occurs_front by blast
    have le: "length pre \<le> length pre'"
    proof (rule ccontr)
      assume "\<not> length pre \<le> length pre'"
      then have "length pre' < length pre" by simp
      from first[THEN spec, THEN spec, THEN mp, OF conjI[OF s' this]] some
      show False by simp
    qed
    have "length g' \<le> length g" if "length pre' = length pre"
    proof -
      from s s' that have "t = ?t'" by (metis same_length_prefix)
      with longest ids' show ?thesis by blast
    qed
    with le show ?thesis by blast
  qed
  with here show "regex_group p s g" unfolding regex_group_def by blast
next
  assume "regex_group p s g"
  then obtain pre post where here: "occurs p s pre g post"
    and best: "\<forall>pre' g' post'. occurs p s pre' g' post'
              \<longrightarrow> length pre \<le> length pre'
                  \<and> (length pre' = length pre \<longrightarrow> length g' \<le> length g)"
    unfolding regex_group_def by blast
  let ?t = "before p @ g @ after p @ post"
  from here have s: "s = pre @ ?t" and ne: "g \<noteq> []" and ids: "\<forall>c \<in> set g. is_id_char c"
    by (simp_all add: occurs_def)
  have longest: "length g' \<le> length g"
    if "?t = before p @ g' @ after p @ post'" "\<forall>c \<in> set g'. is_id_char c" for g' post'
  proof (cases "g' = []")
    case True
    then show ?thesis by simp
  next
    case False
    with that s have "occurs p s pre g' post'" by (simp add: occurs_def)
    with best show ?thesis by blast
  qed
  have at: "match_at p ?t = Some g"
    unfolding match_at_Some_iff using ne ids longest by blast
  have first: "match_at p t' = None" if "s = pre' @ t'" "length pre' < length pre" for pre' t'
  proof (rule ccontr)
    assume "match_at p t' \<noteq> None"
    then obtain g' post' where "occurs p t' [] g' post'" unfolding occurs_front by blast
    with that(1) have "occurs p s pre' g' post'" by (simp add: occurs_def)
    with best have "length pre \<le> length pre'" by blast
    with that(2) show False by simp
  qed
  from s at first show "match_id s p = Some g"
    unfolding match_id_def leftmost_Some_iff by blast
qed

lemma match_id_None_matches: "match_id s p = None \<longleftrightarrow> \<not> matches p s"
  by (simp add: match_id_None matches_def occurs_def)

lemma matches_regex_group: "matches p s \<longleftrightarrow> (\<exists>g. regex_group p s g)"
proof -
  have "matches p s \<longleftrightarrow> match_id s p \<noteq> None" by (simp add: match_id_None_matches)
  also have "\<dots> \<longleftrightarrow> (\<exists>g. match_id s p = Some g)" by auto
  finally show ?thesis by (simp add: match_id_Some_iff)
qed

lemma regex_group_unique: "regex_group p s g \<Longrightarrow> regex_group p s h \<Longrightarrow> g = h"
  by (simp add: match_id_Some_iff[symmetric])

subsection \<open>The character classes and \<open>trim\<close>\<close>

lemma is_id_char_set:
  "is_id_char c \<longleftrightarrow>
     c \<in> set ''abcdefghijklmnopqrstuvwxyzABCDEFGHIJKLMNOPQRSTUVWXYZ0123456789-_''"
  by (cases c) (simp add: is_id_char_def)

lemma is_space_set:
  "is_space c \<longleftrightarrow>
     c \<in> {CHR 0x09, CHR 0x0A, CHR 0x0B, CHR 0x0C, CHR 0x0D, CHR 0x20, CHR 0xA0}"
  by (cases c) (simp add: is_space_def)

lemma trim_spec:
  "\<exists>a b. s = a @ trim s @ b \<and> (\<forall>c \<in> set a. is_space c) \<and> (\<forall>c \<in> set b. is_space c)
         \<and> (trim s = [] \<or> (\<not> is_space (hd (trim s)) \<and> \<not> is_space (last (trim s))))"
proof -
  define a where "a = takeWhile is_space s"
  define d where "d = dropWhile is_space s"
  define b where "b = rev (takeWhile is_space (rev d))"
  have s: "s = a @ d" by (simp add: a_def d_def)
  have t: "trim s = rev (dropWhile is_space (rev d))" by (simp add: trim_def d_def)
  have "rev (takeWhile is_space (rev d) @ dropWhile is_space (rev d)) = d"
    by (simp only: takeWhile_dropWhile_id rev_rev_ident)
  then have d: "d = trim s @ b" by (simp only: rev_append t b_def)
  have sa: "\<forall>c \<in> set a. is_space c" unfolding a_def by (auto dest: set_takeWhileD)
  have sb: "\<forall>c \<in> set b. is_space c" unfolding b_def by (auto dest: set_takeWhileD)
  have ends: "\<not> is_space (hd (trim s)) \<and> \<not> is_space (last (trim s))" if ne: "trim s \<noteq> []"
  proof
    from ne d have "hd (trim s) = hd d" and dne: "d \<noteq> []" by auto
    moreover from dne have "\<not> is_space (hd d)" unfolding d_def by (rule hd_dropWhile)
    ultimately show "\<not> is_space (hd (trim s))" by simp
    from ne have r: "dropWhile is_space (rev d) \<noteq> []" by (simp add: t)
    then have "\<not> is_space (hd (dropWhile is_space (rev d)))" by (rule hd_dropWhile)
    moreover from r have "last (trim s) = hd (dropWhile is_space (rev d))"
      by (simp add: t last_rev)
    ultimately show "\<not> is_space (last (trim s))" by simp
  qed
  from s d have "s = a @ trim s @ b" by simp
  with sa sb ends show ?thesis by blast
qed

text \<open>
  Claim C5.  \<open>extractFileId\<close> throws the invalid-input error exactly when its argument is
  not a string or is the empty string.  On a non-empty string it throws the not-found error
  exactly when no pattern of \<open>fileIdPatterns\<close> matches the trimmed URL, and it returns
  \<open>g\<close> exactly when \<open>g\<close> is the group captured by the first pattern of the list that
  matches the trimmed URL: the identifier run of that pattern's leftmost occurrence, as
  long as the occurrence allows.  The list has the patterns in the order \<open>/file/d/<id>\<close>,
  \<open>id=<id>\<close>, \<open>/d/<id>/view\<close>, \<open>/d/<id>/edit\<close>, then the document, spreadsheets,
  presentation, forms and drawings paths.  The captured group is unique, and a pattern
  that matches has one.  The identifier characters are the letters, the digits, \<open>-\<close> and
  \<open>_\<close>.  The trimmed URL is the URL without the white space at its two ends.
\<close>

theorem extractFileId_cases:
  "(extractFileId arg = Inl invalid_url \<longleftrightarrow> arg = JsOther \<or> arg = JsString [])
   \<and> (\<forall>url. arg = JsString url \<and> url \<noteq> [] \<longrightarrow>
         (extractFileId arg = Inl id_not_found
            \<longleftrightarrow> (\<forall>p \<in> set fileIdPatterns. \<not> matches p (trim url)))
       \<and> (\<forall>g. extractFileId arg = Inr g \<longleftrightarrow>
             (\<exists>earlier p later. fileIdPatterns = earlier @ p # later
                \<and> (\<forall>q \<in> set earlier. \<not> matches q (trim url))
                \<and> regex_group p (trim url) g)))
   \<and> map (\<lambda>p. (before p, after p)) fileIdPatterns =
       [(''/file/d/'', []), (''id='', []), (''/d/'', ''/view''), (''/d/'', ''/edit''),
        (''/document/d/'', []), (''/spreadsheets/d/'', []), (''/presentation/d/'', []),
        (''/forms/d/'', []), (''/drawings/d/'', [])]
   \<and> (\<forall>p s g h. regex_group p s g \<and> regex_group p s h \<longrightarrow> g = h)
   \<and> (\<forall>p s. matches p s \<longleftrightarrow> (\<exists>g. regex_group p s g))
   \<and> (\<forall>c. is_id_char c \<longleftrightarrow>
         c \<in> set ''abcdefghijklmnopqrstuvwxyzABCDEFGHIJKLMNOPQRSTUVWXYZ0123456789-_'')
   \<and> (\<forall>s. \<exists>a b. s = a @ trim s @ b
          \<and> (\<forall>c \<in> set a. is_space c) \<and> (\<forall>c \<in> set b. is_space c)
          \<and> (trim s = [] \<or> (\<not> is_space (hd (trim s)) \<and> \<not> is_space (last (trim s)))))
   \<and> (\<forall>c. is_space c \<longleftrightarrow>
         c \<in> {CHR 0x09, CHR 0x0A, CHR 0x0B, CHR 0x0C, CHR 0x0D, CHR 0x20, CHR 0xA0})"
proof (intro conjI allI impI)
  have ne: "invalid_url \<noteq> id_not_found"
    by (simp add: invalid_url_def id_not_found_def)
  show "extractFileId arg = Inl invalid_url \<longleftrightarrow> arg = JsOther \<or> arg = JsString []"
  proof (cases arg)
    case (JsString url)
    then show ?thesis using ne by (auto simp: first_id_Inl)
  next
    case JsOther
    then show ?thesis by simp
  qed
next
  fix url assume "arg = JsString url \<and> url \<noteq> []"
  then show "extractFileId arg = Inl id_not_found
            \<longleftrightarrow> (\<forall>p \<in> set fileIdPatterns. \<not> matches p (trim url))"
    by (simp add: first_id_Inl match_id_None_matches)
next
  fix url g assume "arg = JsString url \<and> url \<noteq> []"
  then show "extractFileId arg = Inr g \<longleftrightarrow>
             (\<exists>earlier p later. fileIdPatterns = earlier @ p # later
                \<and> (\<forall>q \<in> set earlier. \<not> matches q (trim url))
                \<and> regex_group p (trim url) g)"
    by (simp add: first_id_Inr match_id_None_matches match_id_Some_iff)
next
  show "map (\<lambda>p. (before p, after p)) fileIdPatterns =
       [(''/file/d/'', []), (''id='', []), (''/d/'', ''/view''), (''/d/'', ''/edit''),
        (''/document/d/'', []), (''/spreadsheets/d/'', []), (''/presentation/d/'', []),
        (''/forms/d/'', []), (''/drawings/d/'', [])]"
    by (simp add: fileIdPatterns_def)
next
  fix p s g h assume "regex_group p s g \<and> regex_group p s h"
  then show "g = h" by (auto dest: regex_group_unique)
next
  fix p s show "matches p s \<longleftrightarrow> (\<exists>g. regex_group p s g)"
    by (rule matches_regex_group)
next
  fix c show "is_id_char c \<longleftrightarrow>
         c \<in> set ''abcdefghijklmnopqrstuvwxyzABCDEFGHIJKLMNOPQRSTUVWXYZ0123456789-_''"
    by (rule is_id_char_set)
next
  fix s show "\<exists>a b. s = a @ trim s @ b
          \<and> (\<forall>c \<in> set a. is_space c) \<and> (\<forall>c \<in> set b. is_space c)
          \<and> (trim s = [] \<or> (\<not> is_space (hd (trim s)) \<and> \<not> is_space (last (trim s))))"
    by (rule trim_spec)
next
  fix c show "is_space c \<longleftrightarrow>
         c \<in> {CHR 0x09, CHR 0x0A, CHR 0x0B, CHR 0x0C, CHR 0x0D, CHR 0x20, CHR 0xA0}"
    by (rule is_space_set)
qed

text \<open>
  At a sharing link that also carries an \<open>id=\<close> parameter the first pattern wins and its
  group is the whole identifier; where the identifier is followed by the rest of the third
  pattern and no earlier pattern matches, the third pattern gives it; a string of blanks
  is a non-empty string in which nothing matches.
\<close>

theorem extractFileId_cases_witness:
  "extractFileId (JsString '' https://drive.google.com/file/d/AbC-12_xYz90/view?id=zz '')
     = Inr ''AbC-12_xYz90''
   \<and> (\<exists>earlier p later. fileIdPatterns = earlier @ p # later
        \<and> (\<forall>q \<in> set earlier.
              \<not> matches q (trim '' https://drive.google.com/file/d/AbC-12_xYz90/view?id=zz ''))
        \<and> regex_group p (trim '' https://drive.google.com/file/d/AbC-12_xYz90/view?id=zz '')
             ''AbC-12_xYz90'')
   \<and> extractFileId (JsString ''docs.google.com/d/1a-b_2c3D4e5/view'') = Inr ''1a-b_2c3D4e5''
   \<and> extractFileId (JsString ''  '') = Inl id_not_found
   \<and> extractFileId JsOther = Inl invalid_url"
proof -
  let ?u = "'' https://drive.google.com/file/d/AbC-12_xYz90/view?id=zz ''"
  have ev: "extractFileId (JsString ?u) = Inr ''AbC-12_xYz90''"
    by code_simp
  have ne: "JsString ?u = JsString ?u \<and> ?u \<noteq> []"
    by simp
  note on_string =
    extractFileId_cases[of "JsString ?u", THEN conjunct2, THEN conjunct1, THEN spec,
      of ?u, THEN mp, OF ne]
  note ex = on_string[THEN conjunct2, THEN spec, of "''AbC-12_xYz90''", THEN iffD1, OF ev]
  have third: "extractFileId (JsString ''docs.google.com/d/1a-b_2c3D4e5/view'')
      = Inr ''1a-b_2c3D4e5''"
    by code_simp
  have blank: "extractFileId (JsString ''  '') = Inl id_not_found"
    by code_simp
  have other: "extractFileId JsOther = Inl invalid_url"
    by simp
  show ?thesis
    by (rule conjI[OF ev conjI[OF ex conjI[OF third conjI[OF blank other]]]])
qed

section \<open>Media types from the file name\<close>

lemma mimeTypeMap_values_nonempty: "map_of mimeTypeMap key = Some v \<Longrightarrow> v \<noteq> []"
  by (auto simp: mimeTypeMap_def split: if_splits)

lemma split_without_separator: "d \<notin> set s \<Longrightarrow> split d s = [s]"
  by (induction s) auto

lemma split_with_separator: "d \<in> set s \<Longrightarrow> tl (split d s) \<noteq> []"
  by (induction s) (auto simp: split_not_empty)

lemma last_split: "last (split d s) = rev (takeWhile (\<lambda>c. c \<noteq> d) (rev s))"
proof (induction s)
  case Nil
  show ?case by simp
next
  case (Cons c cs)
  show ?case
  proof (cases "d \<in> set cs")
    case True
    then have two: "tl (split d cs) \<noteq> []" by (rule split_with_separator)
    then have "last (split d (c # cs)) = last (split d cs)"
      by (cases "split d cs") (auto simp: split_not_empty)
    with Cons True show ?thesis by (simp add: takeWhile_append1)
  next
    case False
    then have one: "split d cs = [cs]" by (rule split_without_separator)
    from False have "\<And>x. x \<in> set (rev cs) \<Longrightarrow> x \<noteq> d" by auto
    then have "takeWhile (\<lambda>c. c \<noteq> d) (rev cs @ [c]) = rev cs @ takeWhile (\<lambda>c. c \<noteq> d) [c]"
      by (rule takeWhile_append2)
    with one show ?thesis by auto
  qed
qed

text \<open>
  The lookup of \<open>detectMimeTypeFromExtension\<close>.  The extension it reads is the
  lower-cased text after the last dot of the file name, the whole name when the name has
  no dot.  When that text is a key of \<open>mimeTypeMap\<close> the entry's media type is returned;
  when it is empty, or neither a key nor a property name every object inherits, the
  result is \<open>null\<close>.
\<close>

theorem detectMimeTypeFromExtension_lookup:
  assumes "extension = toLowerCase (rev (takeWhile (\<lambda>c. c \<noteq> CHR ''.'') (rev fileName)))"
  shows "(map_of mimeTypeMap extension = Some m
            \<longrightarrow> detectMimeTypeFromExtension fileName = Mime m)
       \<and> (extension = []
            \<or> (map_of mimeTypeMap extension = None \<and> extension \<notin> set object_prototype_names)
            \<longrightarrow> detectMimeTypeFromExtension fileName = Absent)"
proof -
  have popped: "map_option toLowerCase (pop (split CHR ''.'' fileName)) = Some extension"
    by (simp add: pop_def split_not_empty last_split assms)
  have keys: "map_of mimeTypeMap [] = None"
    by (simp add: mimeTypeMap_def)
  show ?thesis
    unfolding detectMimeTypeFromExtension_def popped
    using keys by (auto simp: mimeTypeMap_get_def dest: mimeTypeMap_values_nonempty)
qed

text \<open>An upper-case extension after one dot, and an unknown one after two.\<close>

theorem detectMimeTypeFromExtension_lookup_witness:
  "detectMimeTypeFromExtension ''Scan.PDF'' = Mime ''application/pdf''
   \<and> detectMimeTypeFromExtension ''notes.tar.xyz'' = Absent"
proof -
  have e1: "''pdf'' = toLowerCase (rev (takeWhile (\<lambda>c. c \<noteq> CHR ''.'') (rev ''Scan.PDF'')))"
    by code_simp
  have k1: "map_of mimeTypeMap ''pdf'' = Some ''application/pdf''"
    by (simp add: mimeTypeMap_def)
  have e2: "''xyz'' =
      toLowerCase (rev (takeWhile (\<lambda>c. c \<noteq> CHR ''.'') (rev ''notes.tar.xyz'')))"
    by code_simp
  have k2: "''xyz'' = [] \<or> (map_of mimeTypeMap ''xyz'' = None
      \<and> ''xyz'' \<notin> set object_prototype_names)"
    by (simp add: mimeTypeMap_def object_prototype_names_def)
  note one = detectMimeTypeFromExtension_lookup[OF e1, THEN conjunct1, THEN mp, OF k1]
  note two = detectMimeTypeFromExtension_lookup[OF e2, THEN conjunct2, THEN mp, OF k2]
  show ?thesis by (rule conjI[OF one two])
qed

text \<open>
  Claim C6.  A file name without a dot has no extension, and the claim has the function
  return nothing for it.  The function takes the whole name for the extension: for the
  name \<open>pdf\<close> it returns the media type of the table's \<open>pdf\<close> entry.
\<close>

theorem detectMimeTypeFromExtension_without_dot:
  "CHR ''.'' \<notin> set ''pdf'' \<and> detectMimeTypeFromExtension ''pdf'' = Mime ''application/pdf''"
  by code_simp

section \<open>Media types from the content\<close>

lemma four_bytes:
  assumes "4 \<le> length buf"
  obtains b0 b1 b2 b3 tail where "buf = b0 # b1 # b2 # b3 # tail"
proof -
  from assms obtain b0 t0 where "buf = b0 # t0" "3 \<le> length t0" by (cases buf) auto
  moreover then obtain b1 t1 where "t0 = b1 # t1" "2 \<le> length t1" by (cases t0) auto
  moreover then obtain b2 t2 where "t1 = b2 # t2" "1 \<le> length t2" by (cases t1) auto
  moreover then obtain b3 t3 where "t2 = b3 # t3" by (cases t2) auto
  ultimately show ?thesis using that by blast
qed

text \<open>
  Claim C7.  \<open>detectMimeTypeFromBuffer\<close> returns the generic octet-stream marker for a
  buffer of fewer than 4 bytes.  On a longer buffer it recognises \<open>%PDF\<close>, the JPEG bytes
  FF D8 FF, the PNG bytes 89 50 4E 47, \<open>GIF\<close>, and \<open>RIFF\<close> with \<open>WEBP\<close> at offset 8; on the
  prefix \<open>PK\<close> it answers by the first of \<open>word/\<close>, \<open>xl/\<close>, \<open>ppt/\<close> found among the
  first 100 bytes, and \<open>application/zip\<close> when none is; a buffer with none of these
  signatures gets the octet-stream marker.
\<close>

theorem detectMimeTypeFromBuffer_signatures:
  "(length buf < 4 \<longrightarrow> detectMimeTypeFromBuffer buf = octet_stream)
   \<and> (take 4 buf = ''%PDF'' \<longrightarrow> detectMimeTypeFromBuffer buf = ''application/pdf'')
   \<and> (4 \<le> length buf \<and> take 3 buf = [CHR 0xFF, CHR 0xD8, CHR 0xFF]
        \<longrightarrow> detectMimeTypeFromBuffer buf = ''image/jpeg'')
   \<and> (take 4 buf = [CHR 0x89, CHR 0x50, CHR 0x4E, CHR 0x47]
        \<longrightarrow> detectMimeTypeFromBuffer buf = ''image/png'')
   \<and> (4 \<le> length buf \<and> take 3 buf = ''GIF''
        \<longrightarrow> detectMimeTypeFromBuffer buf = ''image/gif'')
   \<and> (take 4 buf = ''RIFF'' \<and> take 4 (drop 8 buf) = ''WEBP''
        \<longrightarrow> detectMimeTypeFromBuffer buf = ''image/webp'')
   \<and> (4 \<le> length buf \<and> take 2 buf = ''PK'' \<longrightarrow>
        detectMimeTypeFromBuffer buf =
          (if sublist ''word/'' (take 100 buf)
             then ''application/vnd.openxmlformats-officedocument.wordprocessingml.document''
           else if sublist ''xl/'' (take 100 buf)
             then ''application/vnd.openxmlformats-officedocument.spreadsheetml.sheet''
           else if sublist ''ppt/'' (take 100 buf)
             then ''application/vnd.openxmlformats-officedocument.presentationml.presentation''
           else ''application/zip''))
   \<and> (take 4 buf \<noteq> ''%PDF'' \<and> take 3 buf \<noteq> [CHR 0xFF, CHR 0xD8, CHR 0xFF]
        \<and> take 4 buf \<noteq> [CHR 0x89, CHR 0x50, CHR 0x4E, CHR 0x47] \<and> take 3 buf \<noteq> ''GIF''
        \<and> \<not> (take 4 buf = ''RIFF'' \<and> take 4 (drop 8 buf) = ''WEBP'') \<and> take 2 buf \<noteq> ''PK''
        \<longrightarrow> detectMimeTypeFromBuffer buf = octet_stream)"
proof (cases "length buf < 4")
  case True
  then have short: "detectMimeTypeFromBuffer buf = octet_stream"
    by (simp add: detectMimeTypeFromBuffer_def)
  from True have "take 4 buf \<noteq> ''%PDF''"
    "take 4 buf \<noteq> [CHR 0x89, CHR 0x50, CHR 0x4E, CHR 0x47]" "take 4 buf \<noteq> ''RIFF''"
    by (auto dest: arg_cong[where f = length])
  with True short show ?thesis by simp
next
  case False
  then have "4 \<le> length buf" by simp
  then obtain b0 b1 b2 b3 tail where buf: "buf = b0 # b1 # b2 # b3 # tail"
    by (rule four_bytes)
  show ?thesis
    unfolding buf
    by (simp add: detectMimeTypeFromBuffer_def slice_def Let_def js_includes_sublist)
qed

text \<open>
  A PDF header, a JPEG header, an archive whose first entry is \<open>xl/a\<close>, and a buffer of
  three bytes.
\<close>

theorem detectMimeTypeFromBuffer_signatures_witness:
  "take 4 ''%PDF-1.7'' = ''%PDF''
   \<and> detectMimeTypeFromBuffer ''%PDF-1.7'' = ''application/pdf''
   \<and> detectMimeTypeFromBuffer [CHR 0xFF, CHR 0xD8, CHR 0xFF, CHR 0xE0] = ''image/jpeg''
   \<and> detectMimeTypeFromBuffer ''PK34xl/a'' =
        ''application/vnd.openxmlformats-officedocument.spreadsheetml.sheet''
   \<and> length ''GIF'' < (4 :: nat) \<and> detectMimeTypeFromBuffer ''GIF'' = octet_stream"
proof -
  have pdf: "take 4 ''%PDF-1.7'' = ''%PDF''" by simp
  note pdf_out =
    detectMimeTypeFromBuffer_signatures[of "''%PDF-1.7''", THEN conjunct2, THEN conjunct1,
      THEN mp, OF pdf]
  have jpeg: "detectMimeTypeFromBuffer [CHR 0xFF, CHR 0xD8, CHR 0xFF, CHR 0xE0] = ''image/jpeg''"
    using detectMimeTypeFromBuffer_signatures[of "[CHR 0xFF, CHR 0xD8, CHR 0xFF, CHR 0xE0]"]
    by simp
  have xl: "sublist ''xl/'' (take 100 ''PK34xl/a'')"
    by (simp add: js_includes_sublist[symmetric])
  have no_word: "\<not> sublist ''word/'' (take 100 ''PK34xl/a'')"
    by (simp add: js_includes_sublist[symmetric])
  have zip: "detectMimeTypeFromBuffer ''PK34xl/a'' =
        ''application/vnd.openxmlformats-officedocument.spreadsheetml.sheet''"
    using detectMimeTypeFromBuffer_signatures[of "''PK34xl/a''"] xl no_word
    by simp
  have short: "length ''GIF'' < (4 :: nat)" by simp
  note short_out =
    detectMimeTypeFromBuffer_signatures[of "''GIF''", THEN conjunct1, THEN mp, OF short]
  show ?thesis
    by (rule conjI[OF pdf conjI[OF pdf_out conjI[OF jpeg conjI[OF zip conjI[OF short short_out]]]]])
qed

section \<open>The candidate endpoints\<close>









text \<open>
  Claim C10.  Whatever the identifier, the media type (absent or not) and the export
  format, \<open>getDownloadUrls\<close> returns between 5 and 7 URLs; its last five are the three
  \<open>drive.usercontent.google.com\<close> URLs followed by the two \<open>drive.google.com/uc\<close> URLs.  So
  the list is never empty and has a last element.
\<close>

theorem getDownloadUrls_five_to_seven:
  "getDownloadUrls fileId mimeType exportFormat \<noteq> []
   \<and> 5 \<le> length (getDownloadUrls fileId mimeType exportFormat)
   \<and> length (getDownloadUrls fileId mimeType exportFormat) \<le> 7
   \<and> drop (length (getDownloadUrls fileId mimeType exportFormat) - 5)
         (getDownloadUrls fileId mimeType exportFormat) =
       [''https://drive.usercontent.google.com/download?id='' @ fileId
          @ ''&export=download&authuser=0'',
        ''https://drive.usercontent.google.com/download?id='' @ fileId
          @ ''&export=download&confirm=t'',
        ''https://drive.usercontent.google.com/download?id='' @ fileId @ ''&export=download'',
        ''https://drive.google.com/uc?export=download&id='' @ fileId,
        ''https://drive.google.com/uc?id='' @ fileId @ ''&export=download'']
   \<and> last (getDownloadUrls fileId mimeType exportFormat) =
       ''https://drive.google.com/uc?id='' @ fileId @ ''&export=download''"
  by (simp add: getDownloadUrls_def push_if_def Let_def)

text \<open>A plain file: five candidates.\<close>

theorem getDownloadUrls_five_to_seven_witness:
  "length (getDownloadUrls ''abc'' None ''pdf'') = 5
   \<and> last (getDownloadUrls ''abc'' None ''pdf'') =
       ''https://drive.google.com/uc?id=abc&export=download''"
proof -
  have len: "length (getDownloadUrls ''abc'' None ''pdf'') = 5"
    using getDownloadUrls_five_to_seven[of "''abc''" None "''pdf''"]
    by (simp add: getDownloadUrls_def opt_includes_def)
  have lst: "last (getDownloadUrls ''abc'' None ''pdf'') =
       ''https://drive.google.com/uc?id=abc&export=download''"
    using getDownloadUrls_five_to_seven[of "''abc''" None "''pdf''"]
    by simp
  show ?thesis by (rule conjI[OF len lst])
qed

section \<open>Retry with backoff\<close>

lemma retry_loop_succeeds:
  assumes "\<forall>n. attempt \<le> n \<and> n < k \<longrightarrow> (\<exists>error. fn n = Inl error)"
    and "fn k = Inr v" and "attempt \<le> k" and "int k \<le> maxRetries"
  shows "retry_loop fn maxRetries baseDelay attempt lastError delays =
           (Inr v, delays @ map (\<lambda>n. baseDelay * 2 ^ n) [attempt..<k])"
  using assms
proof (induction "k - attempt" arbitrary: attempt lastError delays)
  case 0
  then have "attempt = k" by simp
  with 0 show ?case by (subst retry_loop.simps) simp
next
  case (Suc d)
  then have lt: "attempt < k" by simp
  with Suc.prems obtain error where err: "fn attempt = Inl error" by auto
  have step: "retry_loop fn maxRetries baseDelay attempt lastError delays =
      retry_loop fn maxRetries baseDelay (attempt + 1) (Some (as_error error))
        (delays @ [baseDelay * 2 ^ attempt])"
    using lt err Suc.prems(4) by (subst retry_loop.simps) simp
  have "retry_loop fn maxRetries baseDelay (attempt + 1) (Some (as_error error))
        (delays @ [baseDelay * 2 ^ attempt]) =
      (Inr v, (delays @ [baseDelay * 2 ^ attempt])
         @ map (\<lambda>n. baseDelay * 2 ^ n) [attempt + 1..<k])"
    using Suc.hyps(2) Suc.prems lt by (intro Suc.hyps(1)) auto
  with step lt show ?case by (simp add: upt_conv_Cons)
qed

lemma retry_loop_gives_up:
  assumes "\<forall>n. attempt \<le> n \<and> n < m \<longrightarrow> (\<exists>error. fn n = Inl error)"
    and "fn m = Inl final" and "attempt \<le> m" and "maxRetries = int m"
  shows "retry_loop fn maxRetries baseDelay attempt lastError delays =
           (Inl (as_error final), delays @ map (\<lambda>n. baseDelay * 2 ^ n) [attempt..<m])"
  using assms
proof (induction "m - attempt" arbitrary: attempt lastError delays)
  case 0
  then have "attempt = m" by simp
  with 0 show ?case by (subst retry_loop.simps) simp
next
  case (Suc d)
  then have lt: "attempt < m" by simp
  with Suc.prems obtain error where err: "fn attempt = Inl error" by auto
  have step: "retry_loop fn maxRetries baseDelay attempt lastError delays =
      retry_loop fn maxRetries baseDelay (attempt + 1) (Some (as_error error))
        (delays @ [baseDelay * 2 ^ attempt])"
    using lt err Suc.prems(4) by (subst retry_loop.simps) simp
  have "retry_loop fn maxRetries baseDelay (attempt + 1) (Some (as_error error))
        (delays @ [baseDelay * 2 ^ attempt]) =
      (Inl (as_error final), (delays @ [baseDelay * 2 ^ attempt])
         @ map (\<lambda>n. baseDelay * 2 ^ n) [attempt + 1..<m])"
    using Suc.hyps(2) Suc.prems lt by (intro Suc.hyps(1)) auto
  with step lt show ?case by (simp add: upt_conv_Cons)
qed

text \<open>
  Claim C4, amended.  Let the wrapped function fail on its first \<open>k\<close> calls and succeed
  on the next, with value \<open>v\<close>.  With \<open>maxRetries \<ge> k\<close>, \<open>retryWithBackoff\<close> returns
  \<open>v\<close>, after the delays \<open>baseDelay * 2 ^ attempt\<close> for \<open>attempt = 0, ..., k - 1\<close>, one
  after each failed attempt: \<open>k\<close> retries, at most \<open>maxRetries\<close>.  With
  \<open>0 \<le> maxRetries < k\<close> it throws what attempt number \<open>maxRetries\<close>, the last one
  made, threw, a thrown value that is not an \<open>Error\<close> replaced by
  \<open>new Error('Unknown error')\<close>.
\<close>

theorem retryWithBackoff_outcomes:
  assumes "\<forall>n < k. \<exists>error. fn n = Inl error" and "fn k = Inr v"
  shows "(int k \<le> maxRetries \<longrightarrow>
            retryWithBackoff fn maxRetries baseDelay =
              (Inr v, map (\<lambda>attempt. baseDelay * 2 ^ attempt) [0..<k])
            \<and> int (length (snd (retryWithBackoff fn maxRetries baseDelay))) \<le> maxRetries)
       \<and> (0 \<le> maxRetries \<and> maxRetries < int k \<longrightarrow>
            (\<exists>final. fn (nat maxRetries) = Inl final
               \<and> retryWithBackoff fn maxRetries baseDelay =
                   (Inl (as_error final),
                    map (\<lambda>attempt. baseDelay * 2 ^ attempt) [0..<nat maxRetries])))"
proof (intro conjI impI)
  assume le: "int k \<le> maxRetries"
  from assms le show "retryWithBackoff fn maxRetries baseDelay =
              (Inr v, map (\<lambda>attempt. baseDelay * 2 ^ attempt) [0..<k])"
    unfolding retryWithBackoff_def
    by (subst retry_loop_succeeds[where k = k and v = v]) auto
  with le show "int (length (snd (retryWithBackoff fn maxRetries baseDelay))) \<le> maxRetries"
    by simp
next
  assume b: "0 \<le> maxRetries \<and> maxRetries < int k"
  then have lt: "nat maxRetries < k" by linarith
  with assms obtain final where final: "fn (nat maxRetries) = Inl final" by blast
  have "retryWithBackoff fn maxRetries baseDelay =
      (Inl (as_error final), map (\<lambda>attempt. baseDelay * 2 ^ attempt) [0..<nat maxRetries])"
    unfolding retryWithBackoff_def
    using assms(1) final b lt
    by (subst retry_loop_gives_up[where m = "nat maxRetries" and final = final]) auto
  with final show "\<exists>final. fn (nat maxRetries) = Inl final
               \<and> retryWithBackoff fn maxRetries baseDelay =
                   (Inl (as_error final),
                    map (\<lambda>attempt. baseDelay * 2 ^ attempt) [0..<nat maxRetries])"
    by blast
qed

text \<open>
  Claim C4, as stated, fails at two inputs.  A function that succeeds at once (\<open>k = 0\<close>)
  under \<open>maxRetries = -1\<close>: no attempt is made and \<open>undefined\<close> is thrown, which no
  attempt threw.  A function that throws a value that is not an \<open>Error\<close> and then
  succeeds (\<open>k = 1\<close>) under \<open>maxRetries = 0\<close>: a new \<open>Error\<close> is thrown, not the value
  the attempt threw.
\<close>

theorem retryWithBackoff_counterexample:
  "succeeds_at_once 0 = Inr 7
   \<and> retryWithBackoff succeeds_at_once (- 1) 1000 = (Inl NonError, [])
   \<and> throws_a_value_once 0 = Inl NonError \<and> throws_a_value_once 1 = Inr 7
   \<and> retryWithBackoff throws_a_value_once 0 1000 = (Inl (Error ''Unknown error''), [])"
  by (simp add: retryWithBackoff_def succeeds_at_once_def throws_a_value_once_def)

text \<open>A function that fails twice, under three retries and under one.\<close>

theorem retryWithBackoff_outcomes_witness:
  "retryWithBackoff fails_twice 3 1000 = (Inr 7, [1000, 2000])
   \<and> retryWithBackoff fails_twice 1 1000 = (Inl (Error ''second''), [1000])"
proof -
  have f: "\<forall>n < 2. \<exists>error. fails_twice n = Inl error"
    by (simp add: fails_twice_def)
  have s: "fails_twice 2 = Inr 7"
    by (simp add: fails_twice_def)
  have one: "fails_twice (nat 1) = Inl (Error ''second'')"
    by (simp add: fails_twice_def)
  have up: "map (\<lambda>attempt. 1000 * 2 ^ attempt) [0..<2] = [1000, 2000 :: nat]"
    by (simp add: upt_conv_Cons)
  have a: "retryWithBackoff fails_twice 3 1000 = (Inr 7, [1000, 2000])"
    using retryWithBackoff_outcomes[OF f s, of 3 1000] up by simp
  have b: "retryWithBackoff fails_twice 1 1000 = (Inl (Error ''second''), [1000])"
    using retryWithBackoff_outcomes[OF f s, of 1 1000] one by (auto simp: upt_conv_Cons)
  show ?thesis by (rule conjI[OF a b])
qed

section \<open>The download pipeline\<close>

lemma retry_no_failure:
  "retryWithBackoff (\<lambda>n. Inr x) maxRetries baseDelay =
     (if 0 \<le> maxRetries then (Inr x, []) else (Inl NonError, []))"
  unfolding retryWithBackoff_def by (subst retry_loop.simps) simp

lemma download_try_reaches_loop:
  assumes "extractFileId url = Inr fileId"
    and "0 \<le> (case opt_maxRetries options of None \<Rightarrow> DEFAULT_MAX_RETRIES cfg | Some n \<Rightarrow> n)"
    and "info_mimeType (getFileInfo e fileId) \<noteq> NotAString"
  shows "download_try cfg e url options =
           download_loop cfg e fileId (getFileInfo e fileId)
             (case opt_asBuffer options of None \<Rightarrow> True | Some b \<Rightarrow> b)
             (case opt_exportFormat options of None \<Rightarrow> ''original'' | Some f \<Rightarrow> f)
             (getDownloadUrls fileId (string_or_null (info_mimeType (getFileInfo e fileId)))
                (case opt_exportFormat options of None \<Rightarrow> ''original'' | Some f \<Rightarrow> f))
             None"
  using assms by (simp add: download_try_def Let_def retry_no_failure)

subsection \<open>Thrown values and their messages\<close>

lemma named_simps [simp]:
  "named NonError" "named (Error m) \<longleftrightarrow> m \<noteq> []" "named (as_error error) \<longleftrightarrow> named error"
  by (cases error; simp add: named_def)+

lemma drain_named:
  "drain cfg cs stop acc n = Inl error \<Longrightarrow> stop \<noteq> Failed (Error []) \<Longrightarrow> named error"
proof (induction cs arbitrary: acc n)
  case Nil
  show ?case
  proof (cases stop)
    case (Failed thrown)
    with Nil have "thrown \<noteq> Error []" "error = thrown" by auto
    then show ?thesis by (cases thrown) auto
  qed (use Nil in auto)
next
  case (Cons c cs)
  then show ?case by (auto simp: too_large_def split: if_splits)
qed

lemma processDownloadResponse_named:
  "processDownloadResponse cfg r fileInfo fileId asBuffer exportFormat = Inl error
   \<Longrightarrow> stream_ending (resp_data r) \<noteq> Failed (Error []) \<Longrightarrow> named error"
  by (auto simp: processDownloadResponse_def Let_def streamToBuffer_def
      split: if_splits sum.splits dest: drain_named)

lemma downloadLargeFile_named:
  "downloadLargeFile cfg e fileId fileInfo asBuffer exportFormat = Inl error \<Longrightarrow> named error"
  by (auto simp: downloadLargeFile_def wrapped_def split: sum.splits)

lemma after_loop_named:
  "after_loop cfg fileId fileInfo asBuffer exportFormat response = Inl error
   \<Longrightarrow> \<forall>r. response = Some r \<longrightarrow> stream_ending (resp_data r) \<noteq> Failed (Error [])
   \<Longrightarrow> named error"
  by (auto simp: after_loop_def split: option.splits dest: processDownloadResponse_named)

lemma download_loop_named:
  "download_loop cfg e fileId fileInfo asBuffer exportFormat urls response = Inl error
   \<Longrightarrow> names_errors e
   \<Longrightarrow> \<forall>r. response = Some r \<longrightarrow> stream_ending (resp_data r) \<noteq> Failed (Error [])
   \<Longrightarrow> named error"
proof (induction urls arbitrary: response)
  case Nil
  then show ?case by (auto dest: after_loop_named)
next
  case (Cons u later)
  show ?case
  proof (cases "get_stream e u")
    case (Inl thrown)
    with Cons.prems(2) have "thrown \<noteq> Error []" by (auto simp: names_errors_def)
    then have "named thrown" by (cases thrown) auto
    with Inl Cons show ?thesis by (auto split: if_splits)
  next
    case (Inr r)
    with Cons.prems(2) have ok: "stream_ending (resp_data r) \<noteq> Failed (Error [])"
      by (auto simp: names_errors_def)
    show ?thesis
    proof (cases "is_html r")
      case False
      with Inr Cons.prems(1) ok show ?thesis by (auto dest: after_loop_named)
    next
      case True
      show ?thesis
      proof (cases "later = []")
        case True
        with \<open>is_html r\<close> Inr Cons.prems(1) show ?thesis
          by (auto split: sum.splits dest: downloadLargeFile_named)
      next
        case False
        with \<open>is_html r\<close> Inr Cons.prems ok show ?thesis
          by (auto intro: Cons.IH)
      qed
    qed
  qed
qed

lemma extractFileId_named: "extractFileId url = Inl error \<Longrightarrow> named error"
proof (cases url)
  case (JsString s)
  assume "extractFileId url = Inl error"
  with JsString have "error = invalid_url \<or> error = id_not_found"
    by (auto simp: first_id_Inl split: if_splits)
  then show ?thesis by (auto simp: invalid_url_def id_not_found_def)
next
  case JsOther
  assume "extractFileId url = Inl error"
  with JsOther show ?thesis by (auto simp: invalid_url_def)
qed

lemma download_try_named:
  "download_try cfg e url options = Inl error \<Longrightarrow> names_errors e \<Longrightarrow> named error"
  by (auto simp: download_try_def Let_def retry_no_failure includes_not_a_function_def
      split: sum.splits if_splits dest: extractFileId_named download_loop_named)

subsection \<open>The media type of a buffered result\<close>

lemma detectMimeTypeFromBuffer_nonempty: "detectMimeTypeFromBuffer buf \<noteq> []"
  by (simp add: detectMimeTypeFromBuffer_def Let_def octet_stream_def)

lemma not_truthy: "\<not> truthy m \<longleftrightarrow> m = Absent \<or> m = Mime []"
  by (cases m) auto

lemma processDownloadResponse_buffer:
  assumes "streamToBuffer cfg (resp_data response) = Inr buf"
  shows "\<exists>result f.
           processDownloadResponse cfg response fileInfo fileId True exportFormat = Inr result
           \<and> res_file result = Some f \<and> res_mimeType result = Some (file_mimetype f)
           \<and> file_buffer f = Some buf
           \<and> file_mimetype f =
               or_octet_stream
                 (let finalMimeType =
                        (if detectMimeTypeFromBuffer buf \<noteq> octet_stream
                         then Mime (detectMimeTypeFromBuffer buf)
                         else adjusted_mimeType fileInfo exportFormat)
                  in if \<not> truthy finalMimeType \<or> finalMimeType = Mime octet_stream
                     then (if truthy (detectMimeTypeFromExtension
                                        (adjusted_name fileInfo exportFormat))
                           then detectMimeTypeFromExtension (adjusted_name fileInfo exportFormat)
                           else finalMimeType)
                     else finalMimeType)"
  using assms by (simp add: processDownloadResponse_def Let_def)


lemma final_mimeType_cases:
  assumes "detected \<noteq> []"
    and "final = or_octet_stream
                 (let finalMimeType =
                        (if detected \<noteq> octet_stream then Mime detected else prior)
                  in if \<not> truthy finalMimeType \<or> finalMimeType = Mime octet_stream
                     then (if truthy byExtension then byExtension else finalMimeType)
                     else finalMimeType)"
  shows "(detected \<noteq> octet_stream \<longrightarrow> final = Mime detected)
         \<and> (detected = octet_stream
              \<and> (prior = Absent \<or> prior = Mime [] \<or> prior = Mime octet_stream)
              \<and> truthy byExtension \<longrightarrow> final = byExtension)
         \<and> (detected = octet_stream
              \<and> (prior = Absent \<or> prior = Mime [] \<or> prior = Mime octet_stream)
              \<and> \<not> truthy byExtension \<longrightarrow> final = Mime octet_stream)
         \<and> (detected = octet_stream
              \<and> prior \<noteq> Absent \<and> prior \<noteq> Mime [] \<and> prior \<noteq> Mime octet_stream
              \<longrightarrow> final = prior)"
proof -
  have oct: "octet_stream \<noteq> []" by (simp add: octet_stream_def)
  show ?thesis
  proof (cases "detected = octet_stream")
    case False
    with assms show ?thesis by (simp add: or_octet_stream_def Let_def)
  next
    case True
    show ?thesis
    proof (cases "prior = Absent \<or> prior = Mime [] \<or> prior = Mime octet_stream")
      case weak: True
      then have "\<not> truthy prior \<or> prior = Mime octet_stream" by auto
      with True weak assms oct show ?thesis
        by (auto simp: or_octet_stream_def Let_def not_truthy)
    next
      case strong: False
      then have "truthy prior" "prior \<noteq> Mime octet_stream"
        using not_truthy[of prior] by auto
      with True strong assms show ?thesis
        by (simp add: or_octet_stream_def Let_def)
    qed
  qed
qed

text \<open>
  Claim C9.  In buffer mode, once the body has been drained into \<open>buf\<close>, the media type
  of the result is: the content-based classification of \<open>buf\<close> when that is not the
  octet-stream marker; otherwise, when the prior value (the media type after the
  export-format adjustment) is absent, empty or the octet-stream marker, the
  extension-based classification of the final file name when that yields a value, and
  \<open>application/octet-stream\<close> when it yields none; otherwise the prior value.
\<close>

theorem processDownloadResponse_buffer_mimeType:
  assumes "streamToBuffer cfg (resp_data response) = Inr buf"
    and "detected = detectMimeTypeFromBuffer buf"
    and "prior = adjusted_mimeType fileInfo exportFormat"
    and "byExtension = detectMimeTypeFromExtension (adjusted_name fileInfo exportFormat)"
  shows "\<exists>result f.
           processDownloadResponse cfg response fileInfo fileId True exportFormat = Inr result
           \<and> res_file result = Some f \<and> res_mimeType result = Some (file_mimetype f)
           \<and> file_buffer f = Some buf
           \<and> (detected \<noteq> octet_stream \<longrightarrow> file_mimetype f = Mime detected)
           \<and> (detected = octet_stream
                \<and> (prior = Absent \<or> prior = Mime [] \<or> prior = Mime octet_stream)
                \<and> truthy byExtension \<longrightarrow> file_mimetype f = byExtension)
           \<and> (detected = octet_stream
                \<and> (prior = Absent \<or> prior = Mime [] \<or> prior = Mime octet_stream)
                \<and> \<not> truthy byExtension \<longrightarrow> file_mimetype f = Mime octet_stream)
           \<and> (detected = octet_stream
                \<and> prior \<noteq> Absent \<and> prior \<noteq> Mime [] \<and> prior \<noteq> Mime octet_stream
                \<longrightarrow> file_mimetype f = prior)"
proof -
  from processDownloadResponse_buffer[OF assms(1), of fileInfo fileId exportFormat]
  obtain result f where
    r: "processDownloadResponse cfg response fileInfo fileId True exportFormat = Inr result"
       "res_file result = Some f" "res_mimeType result = Some (file_mimetype f)"
       "file_buffer f = Some buf"
    and m: "file_mimetype f =
               or_octet_stream
                 (let finalMimeType =
                        (if detected \<noteq> octet_stream then Mime detected else prior)
                  in if \<not> truthy finalMimeType \<or> finalMimeType = Mime octet_stream
                     then (if truthy byExtension then byExtension else finalMimeType)
                     else finalMimeType)"
    unfolding assms(2-4) by blast
  have "detected \<noteq> []"
    unfolding assms(2) by (rule detectMimeTypeFromBuffer_nonempty)
  from final_mimeType_cases[OF this m] r show ?thesis by blast
qed

subsection \<open>Buffer or stream\<close>

lemma processDownloadResponse_populated:
  "processDownloadResponse cfg response fileInfo fileId asBuffer exportFormat = Inr result
   \<Longrightarrow> res_success result \<and> populated asBuffer result"
  by (auto simp: processDownloadResponse_def Let_def populated_def split: if_splits sum.splits)

lemma downloadLargeFile_populated:
  "downloadLargeFile cfg e fileId fileInfo asBuffer exportFormat = Inr result
   \<Longrightarrow> res_success result \<and> populated asBuffer result"
  by (auto simp: downloadLargeFile_def large_file_try_def
      split: sum.splits body.splits option.splits
      dest!: processDownloadResponse_populated)

lemma after_loop_populated:
  "after_loop cfg fileId fileInfo asBuffer exportFormat response = Inr result
   \<Longrightarrow> res_success result \<and> populated asBuffer result"
  by (auto simp: after_loop_def split: option.splits dest!: processDownloadResponse_populated)

lemma download_loop_populated:
  "download_loop cfg e fileId fileInfo asBuffer exportFormat urls response = Inr result
   \<Longrightarrow> res_success result \<and> populated asBuffer result"
proof (induction urls arbitrary: response)
  case Nil
  then show ?case by (auto dest!: after_loop_populated)
next
  case (Cons u later)
  then show ?case
    by (auto split: sum.splits if_splits
        dest!: after_loop_populated downloadLargeFile_populated)
qed

lemma download_try_populated:
  "download_try cfg e url options = Inr result
   \<Longrightarrow> res_success result
       \<and> populated (case opt_asBuffer options of None \<Rightarrow> True | Some b \<Rightarrow> b) result"
  by (auto simp: download_try_def Let_def split: sum.splits if_splits
      dest!: download_loop_populated)

text \<open>
  Claim C8.  A successful result of \<open>download\<close> holds a file in which exactly one of
  \<open>buffer\<close> and \<open>stream\<close> is set: the buffer when \<open>asBuffer\<close> is true or left out
  (its default is true), the stream when \<open>asBuffer\<close> is false.
\<close>

theorem download_buffer_xor_stream:
  assumes "res_success (download cfg e url options)"
  shows "\<exists>f. res_file (download cfg e url options) = Some f
           \<and> (case opt_asBuffer options of
                None \<Rightarrow> file_buffer f \<noteq> None \<and> file_stream f = None
              | Some asBuffer \<Rightarrow>
                  if asBuffer then file_buffer f \<noteq> None \<and> file_stream f = None
                  else file_buffer f = None \<and> file_stream f \<noteq> None)"
proof (cases "download_try cfg e url options")
  case (Inl error)
  with assms show ?thesis by (simp add: download_def outcome_def failure_def)
next
  case (Inr result)
  then have "populated (case opt_asBuffer options of None \<Rightarrow> True | Some b \<Rightarrow> b) result"
    by (auto dest: download_try_populated)
  with Inr show ?thesis
    by (auto simp: download_def outcome_def populated_def split: option.splits if_splits)
qed

subsection \<open>The confirmation token\<close>

lemma confirm_at_None:
  "confirm_at t = None \<longleftrightarrow>
     \<not> (\<exists>c post. t = ''confirm='' @ c # post \<and> is_token_char c)"
proof
  assume none: "confirm_at t = None"
  show "\<not> (\<exists>c post. t = ''confirm='' @ c # post \<and> is_token_char c)"
  proof
    assume "\<exists>c post. t = ''confirm='' @ c # post \<and> is_token_char c"
    then obtain c post where t: "t = ''confirm='' @ c # post" and c: "is_token_char c"
      by blast
    from t c have "confirm_at t \<noteq> None"
      by (simp add: confirm_at_def)
    with none show False by simp
  qed
next
  assume no: "\<not> (\<exists>c post. t = ''confirm='' @ c # post \<and> is_token_char c)"
  show "confirm_at t = None"
  proof (rule ccontr)
    assume "confirm_at t \<noteq> None"
    then have p: "prefix ''confirm='' t" and run: "takeWhile is_token_char (drop 8 t) \<noteq> []"
      by (auto simp: confirm_at_def starts_with_prefix split: if_splits)
    from p obtain rest where t: "t = ''confirm='' @ rest" by (auto simp: prefix_def)
    with run have "takeWhile is_token_char rest \<noteq> []" by simp
    then obtain c post where "rest = c # post" "is_token_char c"
      by (cases rest) (auto split: if_splits)
    with t no show False by blast
  qed
qed

lemma match_confirm_None:
  "match_confirm html = None \<longleftrightarrow>
     \<not> (\<exists>pre c post. html = pre @ ''confirm='' @ c # post \<and> is_token_char c)"
proof -
  have "match_confirm html = None \<longleftrightarrow>
      (\<forall>t. suffix t html \<longrightarrow> \<not> (\<exists>c post. t = ''confirm='' @ c # post \<and> is_token_char c))"
    by (simp add: match_confirm_def leftmost_None confirm_at_None)
  also have "\<dots> \<longleftrightarrow> \<not> (\<exists>pre c post. html = pre @ ''confirm='' @ c # post \<and> is_token_char c)"
    unfolding suffix_def by blast
  finally show ?thesis .
qed

text \<open>The search for the token agrees with \<open>confirm_token\<close>.\<close>

lemma confirm_at_Some_iff:
  "confirm_at t = Some token \<longleftrightarrow>
     (\<exists>post. t = ''confirm='' @ token @ post \<and> token \<noteq> []
        \<and> (\<forall>c \<in> set token. is_token_char c)
        \<and> (post = [] \<or> \<not> is_token_char (hd post)))"
proof
  assume some: "confirm_at t = Some token"
  then have p: "prefix ''confirm='' t"
    and tok: "token = takeWhile is_token_char (drop 8 t)" and ne: "token \<noteq> []"
    by (auto simp: confirm_at_def starts_with_prefix split: if_splits)
  from p obtain rest where t: "t = ''confirm='' @ rest" by (auto simp: prefix_def)
  with tok have tok': "token = takeWhile is_token_char rest" by simp
  define post where "post = dropWhile is_token_char rest"
  have rest: "rest = token @ post" by (simp add: tok' post_def)
  have stop: "post = [] \<or> \<not> is_token_char (hd post)"
    unfolding post_def by (metis hd_dropWhile)
  have all: "\<forall>c \<in> set token. is_token_char c"
    unfolding tok' by (auto dest: set_takeWhileD)
  from t rest have "t = ''confirm='' @ token @ post" by simp
  with ne all stop show "\<exists>post. t = ''confirm='' @ token @ post \<and> token \<noteq> []
        \<and> (\<forall>c \<in> set token. is_token_char c)
        \<and> (post = [] \<or> \<not> is_token_char (hd post))"
    by blast
next
  assume "\<exists>post. t = ''confirm='' @ token @ post \<and> token \<noteq> []
        \<and> (\<forall>c \<in> set token. is_token_char c)
        \<and> (post = [] \<or> \<not> is_token_char (hd post))"
  then obtain post where t: "t = ''confirm='' @ token @ post" and ne: "token \<noteq> []"
    and all: "\<forall>c \<in> set token. is_token_char c"
    and stop: "post = [] \<or> \<not> is_token_char (hd post)"
    by blast
  from stop have "takeWhile is_token_char post = []" by (cases post) auto
  with all have "takeWhile is_token_char (token @ post) = token"
    by (simp add: takeWhile_append2)
  with t ne show "confirm_at t = Some token"
    by (simp add: confirm_at_def)
qed

lemma match_confirm_Some_iff: "match_confirm html = Some token \<longleftrightarrow> confirm_token html token"
proof
  assume "match_confirm html = Some token"
  then obtain pre t where h: "html = pre @ t" and at: "confirm_at t = Some token"
    and first: "\<forall>pre' t'. html = pre' @ t' \<and> length pre' < length pre
                  \<longrightarrow> confirm_at t' = None"
    unfolding match_confirm_def leftmost_Some_iff by blast
  from at obtain post where t: "t = ''confirm='' @ token @ post" and ne: "token \<noteq> []"
    and all: "\<forall>c \<in> set token. is_token_char c"
    and stop: "post = [] \<or> \<not> is_token_char (hd post)"
    unfolding confirm_at_Some_iff by blast
  have "length pre \<le> length pre'"
    if "html = pre' @ ''confirm='' @ c # post'" "is_token_char c" for pre' c post'
  proof (rule ccontr)
    assume "\<not> length pre \<le> length pre'"
    then have "length pre' < length pre" by simp
    from first[THEN spec, THEN spec, THEN mp, OF conjI[OF that(1) this]]
    have "confirm_at (''confirm='' @ c # post') = None" .
    with that(2) show False unfolding confirm_at_None by blast
  qed
  with h t ne all stop show "confirm_token html token"
    unfolding confirm_token_def by (intro exI[of _ pre] exI[of _ post]) simp
next
  assume "confirm_token html token"
  then obtain pre post where h: "html = pre @ ''confirm='' @ token @ post"
    and ne: "token \<noteq> []" and all: "\<forall>c \<in> set token. is_token_char c"
    and stop: "post = [] \<or> \<not> is_token_char (hd post)"
    and first: "\<forall>pre' c post'. html = pre' @ ''confirm='' @ c # post' \<and> is_token_char c
              \<longrightarrow> length pre \<le> length pre'"
    unfolding confirm_token_def by blast
  have at: "confirm_at (''confirm='' @ token @ post) = Some token"
    unfolding confirm_at_Some_iff using ne all stop by blast
  have none: "confirm_at t' = None" if "html = pre' @ t'" "length pre' < length pre" for pre' t'
  proof (rule ccontr)
    assume "confirm_at t' \<noteq> None"
    then obtain c post' where "t' = ''confirm='' @ c # post'" "is_token_char c"
      unfolding confirm_at_None by blast
    with that(1) first have "length pre \<le> length pre'" by blast
    with that(2) show False by simp
  qed
  from h at none show "match_confirm html = Some token"
    unfolding match_confirm_def leftmost_Some_iff by blast
qed

lemma confirm_token_exists:
  "(\<exists>token. confirm_token html token) \<longleftrightarrow>
     (\<exists>pre c post. html = pre @ ''confirm='' @ c # post \<and> is_token_char c)"
proof -
  have "(\<exists>token. confirm_token html token) \<longleftrightarrow> match_confirm html \<noteq> None"
    by (simp add: match_confirm_Some_iff[symmetric])
  then show ?thesis by (simp add: match_confirm_None)
qed

lemma confirm_token_unique: "confirm_token html s \<Longrightarrow> confirm_token html t \<Longrightarrow> s = t"
  by (simp add: match_confirm_Some_iff[symmetric])

lemma is_token_char_set:
  "is_token_char c \<longleftrightarrow> c \<notin> {CHR ''&'', CHR 0x22, CHR 0x27}"
  by (simp add: is_token_char_def)

lemma is_html_sublist:
  "is_html r \<longleftrightarrow> (\<exists>t a b. content_type r = Some t \<and> t = a @ ''text/html'' @ b)"
  by (cases "content_type r")
    (simp_all add: is_html_def js_includes_sublist sublist_def del: sublist_code)

subsection \<open>The fetch loop and the large-file flow\<close>

lemma download_loop_skips_html:
  assumes "\<forall>v \<in> set pre. answers_html e v" and "get_stream e u = Inr r" and "\<not> is_html r"
  shows "download_loop cfg e fileId fileInfo asBuffer exportFormat (pre @ u # post) response =
           processDownloadResponse cfg r fileInfo fileId asBuffer exportFormat"
  using assms
proof (induction pre arbitrary: response)
  case Nil
  then show ?case by (simp add: after_loop_def)
next
  case (Cons v pre)
  from Cons.prems(1) obtain h where "get_stream e v = Inr h" "is_html h"
    by (auto simp: answers_html_def split: sum.splits)
  with Cons show ?case by simp
qed

lemma downloadLargeFile_throws_Error:
  "downloadLargeFile cfg e fileId fileInfo asBuffer exportFormat = Inl error
   \<Longrightarrow> as_error error = error"
  by (auto simp: downloadLargeFile_def wrapped_def split: sum.splits)

lemma download_loop_all_html:
  assumes "urls \<noteq> []" and "\<forall>v \<in> set urls. answers_html e v"
  shows "download_loop cfg e fileId fileInfo asBuffer exportFormat urls response =
           downloadLargeFile cfg e fileId fileInfo asBuffer exportFormat"
  using assms
proof (induction urls arbitrary: response)
  case Nil
  then show ?case by simp
next
  case (Cons v later)
  from Cons.prems(2) obtain h where h: "get_stream e v = Inr h" "is_html h"
    by (auto simp: answers_html_def split: sum.splits)
  show ?case
  proof (cases "later = []")
    case True
    with h show ?thesis
      by (auto split: sum.splits dest: downloadLargeFile_throws_Error)
  next
    case False
    with h Cons show ?thesis by simp
  qed
qed

lemma downloadLargeFile_flow:
  "(get_text e (''https://drive.google.com/uc?export=download&id='' @ fileId) = Inl error
      \<longrightarrow> downloadLargeFile cfg e fileId fileInfo asBuffer exportFormat = Inl (wrapped error))
   \<and> (get_text e (''https://drive.google.com/uc?export=download&id='' @ fileId) = Inr (Text html)
        \<and> match_confirm html = None
      \<longrightarrow> downloadLargeFile cfg e fileId fileInfo asBuffer exportFormat
            = Inl (wrapped token_not_found))
   \<and> (get_text e (''https://drive.google.com/uc?export=download&id='' @ fileId) = Inr (Text html)
        \<and> match_confirm html = Some token
      \<longrightarrow> downloadLargeFile cfg e fileId fileInfo asBuffer exportFormat =
            (case get_stream e (''https://drive.google.com/uc?export=download&confirm=''
                                  @ token @ ''&id='' @ fileId) of
               Inl thrown \<Rightarrow> Inl (wrapped thrown)
             | Inr r \<Rightarrow>
                 (case processDownloadResponse cfg r fileInfo fileId asBuffer exportFormat of
                    Inl thrown \<Rightarrow> Inl (wrapped thrown)
                  | Inr result \<Rightarrow> Inr result)))"
  by (auto simp: downloadLargeFile_def large_file_try_def wrapped_def split: sum.splits)

lemma getDownloadUrls_not_empty: "getDownloadUrls fileId mimeType exportFormat \<noteq> []"
  by (simp add: getDownloadUrls_def Let_def)

lemma outcome_wrapped:
  "outcome (Inl (wrapped error)) =
     failure (''Large file download error: '' @ message_or ''Unknown'' error)"
  by (simp add: outcome_def wrapped_def)

text \<open>
  Claim C3.  Let the URL hold an identifier, the retry count be non-negative and the
  resolved media type be a string or absent, so that \<open>download\<close> reaches its fetch loop
  over the candidates \<open>urls\<close>.  A candidate that answers with an HTML page is discarded
  and the next one tried: when the candidates before \<open>u\<close> all answer with HTML and \<open>u\<close>
  answers with a response that is not HTML, the result is made from that response.  When
  every candidate answers with HTML, the confirmation page is fetched from
  \<open>uc?export=download&id=<id>\<close>: if that request throws, or the page has no \<open>confirm=\<close>
  followed by a token character, the call fails with the wrapped large-file error; if
  \<open>token\<close> is the token of the page, the confirmed download
  \<open>uc?export=download&confirm=<token>&id=<id>\<close> is issued with exactly that token, its
  result returned and its failures wrapped.  The token of a page is the whole run of token
  characters after the leftmost \<open>confirm=\<close> that a token character follows: a page with
  such a \<open>confirm=\<close> has a token, and only one.  The token characters are all but \<open>&\<close>,
  the double and the single quote.  A response is HTML when its declared content type
  contains \<open>text/html\<close>.
\<close>

theorem download_html_routing:
  assumes "extractFileId url = Inr fileId"
    and "0 \<le> (case opt_maxRetries options of None \<Rightarrow> DEFAULT_MAX_RETRIES cfg | Some n \<Rightarrow> n)"
    and "fileInfo = getFileInfo e fileId"
    and "info_mimeType fileInfo \<noteq> NotAString"
    and "exportFormat = (case opt_exportFormat options of None \<Rightarrow> ''original'' | Some f \<Rightarrow> f)"
    and "asBuffer = (case opt_asBuffer options of None \<Rightarrow> True | Some b \<Rightarrow> b)"
    and "urls = getDownloadUrls fileId (string_or_null (info_mimeType fileInfo)) exportFormat"
    and "confirmUrl = ''https://drive.google.com/uc?export=download&id='' @ fileId"
  shows "(\<forall>pre u post r.
            urls = pre @ u # post \<and> (\<forall>v \<in> set pre. answers_html e v)
            \<and> get_stream e u = Inr r \<and> \<not> is_html r
            \<longrightarrow> download cfg e url options =
                  outcome (processDownloadResponse cfg r fileInfo fileId asBuffer exportFormat))
       \<and> ((\<forall>v \<in> set urls. answers_html e v) \<longrightarrow>
            (\<forall>error. get_text e confirmUrl = Inl error
               \<longrightarrow> download cfg e url options =
                     failure (''Large file download error: '' @ message_or ''Unknown'' error))
          \<and> (\<forall>html. get_text e confirmUrl = Inr (Text html)
                 \<and> \<not> (\<exists>pre c post. html = pre @ ''confirm='' @ c # post \<and> is_token_char c)
               \<longrightarrow> download cfg e url options =
                     failure ''Large file download error: Confirmation token not found for large file'')
          \<and> (\<forall>html token. get_text e confirmUrl = Inr (Text html) \<and> confirm_token html token
               \<longrightarrow> download cfg e url options =
                     outcome
                       (case get_stream e
                               (''https://drive.google.com/uc?export=download&confirm=''
                                  @ token @ ''&id='' @ fileId) of
                          Inl thrown \<Rightarrow> Inl (wrapped thrown)
                        | Inr r \<Rightarrow>
                            (case processDownloadResponse cfg r fileInfo fileId asBuffer
                                    exportFormat of
                               Inl thrown \<Rightarrow> Inl (wrapped thrown)
                             | Inr result \<Rightarrow> Inr result))))
       \<and> (\<forall>html. (\<exists>token. confirm_token html token) \<longleftrightarrow>
             (\<exists>pre c post. html = pre @ ''confirm='' @ c # post \<and> is_token_char c))
       \<and> (\<forall>html s t. confirm_token html s \<and> confirm_token html t \<longrightarrow> s = t)
       \<and> (\<forall>c. is_token_char c \<longleftrightarrow> c \<notin> {CHR ''&'', CHR 0x22, CHR 0x27})
       \<and> (\<forall>r. is_html r \<longleftrightarrow>
             (\<exists>t a b. content_type r = Some t \<and> t = a @ ''text/html'' @ b))
       \<and> (\<forall>v. answers_html e v \<longleftrightarrow> (\<exists>r. get_stream e v = Inr r \<and> is_html r))"
proof -
  have loop: "download cfg e url options =
      outcome (download_loop cfg e fileId fileInfo asBuffer exportFormat urls None)"
    unfolding download_def assms(3,5,6,7)
    using assms(1,2,4) by (simp add: download_try_reaches_loop assms(3))
  have skip: "download cfg e url options =
      outcome (processDownloadResponse cfg r fileInfo fileId asBuffer exportFormat)"
    if "urls = pre @ u # post" "\<forall>v \<in> set pre. answers_html e v"
      "get_stream e u = Inr r" "\<not> is_html r" for pre u post r
    unfolding loop that(1) using that(2-4) by (simp add: download_loop_skips_html)
  have large: "download cfg e url options =
      outcome (downloadLargeFile cfg e fileId fileInfo asBuffer exportFormat)"
    if "\<forall>v \<in> set urls. answers_html e v"
  proof -
    have "urls \<noteq> []" unfolding assms(7) by (rule getDownloadUrls_not_empty)
    with that show ?thesis unfolding loop by (simp add: download_loop_all_html)
  qed
  note flow = downloadLargeFile_flow[of e fileId _ cfg fileInfo asBuffer exportFormat,
      folded assms(8)]
  have no_page: "download cfg e url options =
      failure (''Large file download error: '' @ message_or ''Unknown'' error)"
    if "\<forall>v \<in> set urls. answers_html e v" "get_text e confirmUrl = Inl error" for error
    using large[OF that(1)] flow[of error] that(2) by (simp add: outcome_wrapped)
  have no_token: "download cfg e url options =
      failure ''Large file download error: Confirmation token not found for large file''"
    if "\<forall>v \<in> set urls. answers_html e v" "get_text e confirmUrl = Inr (Text html)"
      "\<not> (\<exists>pre c post. html = pre @ ''confirm='' @ c # post \<and> is_token_char c)" for html
  proof -
    from that(3) have "match_confirm html = None" by (simp add: match_confirm_None)
    with large[OF that(1)] flow[of _ html] that(2) show ?thesis
      by (simp add: outcome_wrapped[of token_not_found, simplified token_not_found_def]
          token_not_found_def)
  qed
  have with_token: "download cfg e url options =
          outcome
            (case get_stream e (''https://drive.google.com/uc?export=download&confirm=''
                                  @ token @ ''&id='' @ fileId) of
               Inl thrown \<Rightarrow> Inl (wrapped thrown)
             | Inr r \<Rightarrow>
                 (case processDownloadResponse cfg r fileInfo fileId asBuffer exportFormat of
                    Inl thrown \<Rightarrow> Inl (wrapped thrown)
                  | Inr result \<Rightarrow> Inr result))"
    if "\<forall>v \<in> set urls. answers_html e v" "get_text e confirmUrl = Inr (Text html)"
      "confirm_token html token" for html token
  proof -
    from that(3) have token: "match_confirm html = Some token"
      by (simp add: match_confirm_Some_iff)
    from large[OF that(1)] flow[of _ html token] that(2) token
    show ?thesis by simp
  qed
  have routed: "(\<forall>pre u post r.
            urls = pre @ u # post \<and> (\<forall>v \<in> set pre. answers_html e v)
            \<and> get_stream e u = Inr r \<and> \<not> is_html r
            \<longrightarrow> download cfg e url options =
                  outcome (processDownloadResponse cfg r fileInfo fileId asBuffer exportFormat))
       \<and> ((\<forall>v \<in> set urls. answers_html e v) \<longrightarrow>
            (\<forall>error. get_text e confirmUrl = Inl error
               \<longrightarrow> download cfg e url options =
                     failure (''Large file download error: '' @ message_or ''Unknown'' error))
          \<and> (\<forall>html. get_text e confirmUrl = Inr (Text html)
                 \<and> \<not> (\<exists>pre c post. html = pre @ ''confirm='' @ c # post \<and> is_token_char c)
               \<longrightarrow> download cfg e url options =
                     failure ''Large file download error: Confirmation token not found for large file'')
          \<and> (\<forall>html token. get_text e confirmUrl = Inr (Text html) \<and> confirm_token html token
               \<longrightarrow> download cfg e url options =
                     outcome
                       (case get_stream e
                               (''https://drive.google.com/uc?export=download&confirm=''
                                  @ token @ ''&id='' @ fileId) of
                          Inl thrown \<Rightarrow> Inl (wrapped thrown)
                        | Inr r \<Rightarrow>
                            (case processDownloadResponse cfg r fileInfo fileId asBuffer
                                    exportFormat of
                               Inl thrown \<Rightarrow> Inl (wrapped thrown)
                             | Inr result \<Rightarrow> Inr result))))"
    using skip no_page no_token with_token by blast
  have tokens: "\<forall>html. (\<exists>token. confirm_token html token) \<longleftrightarrow>
      (\<exists>pre c post. html = pre @ ''confirm='' @ c # post \<and> is_token_char c)"
    by (intro allI) (rule confirm_token_exists)
  have unique: "\<forall>html s t. confirm_token html s \<and> confirm_token html t \<longrightarrow> s = t"
    by (auto dest: confirm_token_unique)
  have chars: "\<forall>c. is_token_char c \<longleftrightarrow> c \<notin> {CHR ''&'', CHR 0x22, CHR 0x27}"
    by (intro allI) (rule is_token_char_set)
  have html: "\<forall>r. is_html r \<longleftrightarrow>
      (\<exists>t a b. content_type r = Some t \<and> t = a @ ''text/html'' @ b)"
    by (intro allI) (rule is_html_sublist)
  have answers: "\<forall>v. answers_html e v \<longleftrightarrow> (\<exists>r. get_stream e v = Inr r \<and> is_html r)"
    by (auto simp: answers_html_def split: sum.splits)
  show ?thesis
    by (rule conjI[OF routed[THEN conjunct1] conjI[OF routed[THEN conjunct2]
          conjI[OF tokens conjI[OF unique conjI[OF chars conjI[OF html answers]]]]]])
qed

text \<open>
  Claim C1, amended.  For every URL argument, transport and options, \<open>download\<close> returns
  a result and throws nothing: either its body returns a result, which is then the result
  of \<open>download\<close> and has \<open>success = true\<close>; or its body throws, and \<open>download\<close>
  returns a result with \<open>success = false\<close>, no file, and as \<open>error\<close> the message of the
  thrown \<open>Error\<close> (\<open>Unknown error\<close> for a thrown value that is not an \<open>Error\<close>).  That
  message is not empty when the transport names its errors: when no streaming request
  throws, and no body stream fails with, an \<open>Error\<close> whose message is empty.
\<close>

theorem download_never_raises:
  "(\<exists>result. download_try cfg e url options = Inr result
       \<and> download cfg e url options = result \<and> res_success result)
   \<or> (\<exists>error. download_try cfg e url options = Inl error
        \<and> \<not> res_success (download cfg e url options)
        \<and> res_file (download cfg e url options) = None
        \<and> res_error (download cfg e url options) = Some (message_or ''Unknown error'' error)
        \<and> (names_errors e \<longrightarrow> message_or ''Unknown error'' error \<noteq> []))"
proof (cases "download_try cfg e url options")
  case (Inr result)
  then have "res_success result" by (auto dest: download_try_populated)
  with Inr show ?thesis by (simp add: download_def outcome_def)
next
  case (Inl error)
  have "names_errors e \<longrightarrow> message_or ''Unknown error'' error \<noteq> []"
    using download_try_named[OF Inl] by (simp add: named_def)
  with Inl show ?thesis by (simp add: download_def outcome_def failure_def)
qed

subsection \<open>The declared length and a confirmation body that is \<open>null\<close>\<close>

text \<open>
  A declared length above \<open>2^53\<close> is read as the nearest double; text after the digits
  is ignored; a header without a digit gives \<open>NaN\<close>.
\<close>

lemma to_double_example: "to_double 9007199254740993 = Some 9007199254740992"
  by (simp add: to_double_def Let_def)

lemma parseInt10_examples:
  "parseInt10 ''9007199254740993'' = Some (Finite 9007199254740992)"
  "parseInt10 '' -42px'' = Some (Finite (- 42))"
  "parseInt10 ''abc'' = None"
proof -
  have dv: "digits_value ''9007199254740993'' = 9007199254740993"
    by (simp add: digits_value_def)
  show "parseInt10 ''9007199254740993'' = Some (Finite 9007199254740992)"
    by (simp add: parseInt10_def Let_def is_space_def is_digit_def dv to_double_example)
  show "parseInt10 '' -42px'' = Some (Finite (- 42))"
    by (simp add: parseInt10_def Let_def is_space_def is_digit_def digits_value_def
        to_double_def)
  show "parseInt10 ''abc'' = None"
    by (simp add: parseInt10_def Let_def is_space_def is_digit_def)
qed

lemma downloadLargeFile_null_body:
  "get_text e (''https://drive.google.com/uc?export=download&id='' @ fileId) = Inr Null \<Longrightarrow>
   downloadLargeFile cfg e fileId fileInfo asBuffer exportFormat
     = Inl (Error (''Large file download error: Cannot read properties of null (reading ''
                    @ [CHR 0x27] @ ''match'' @ [CHR 0x27] @ '')''))"
  by (simp add: downloadLargeFile_def large_file_try_def wrapped_def match_of_null_def)

subsection \<open>The example inputs, evaluated\<close>

lemma example_id: "extractFileId example_url = Inr ''abc''"
  unfolding example_url_def by code_simp

lemma example_retries:
  "0 \<le> (case opt_maxRetries no_options of None \<Rightarrow> DEFAULT_MAX_RETRIES example_config
         | Some n \<Rightarrow> n)"
  "0 \<le> (case opt_maxRetries stream_options of None \<Rightarrow> DEFAULT_MAX_RETRIES example_config
         | Some n \<Rightarrow> n)"
  by (simp_all add: no_options_def stream_options_def example_config_def)

lemma report_pdf: "detectMimeTypeFromExtension ''report.pdf'' = Mime ''application/pdf''"
  by code_simp

lemma notes_txt: "detectMimeTypeFromExtension ''notes.txt'' = Mime ''text/plain''"
  by code_simp

lemma example_getFileInfo:
  "getFileInfo serves_pdf ''abc'' = example_info"
  "getFileInfo serves_html ''abc'' = example_info"
  "getFileInfo serves_html_no_token ''abc'' = example_info"
  "getFileInfo fails_unnamed ''abc'' = example_info"
  "getFileInfo html_first ''abc'' = example_info"
  by (simp_all add: getFileInfo_def getFileInfoFromPage_def serves_pdf_def serves_html_def
      serves_html_no_token_def fails_unnamed_def html_first_def report_pdf example_info_def)

lemma example_urls:
  "getDownloadUrls ''abc'' (Some ''application/pdf'') ''original'' =
     [''https://drive.usercontent.google.com/download?id=abc&export=download&authuser=0'',
      ''https://drive.usercontent.google.com/download?id=abc&export=download&confirm=t'',
      ''https://drive.usercontent.google.com/download?id=abc&export=download'',
      ''https://drive.google.com/uc?export=download&id=abc'',
      ''https://drive.google.com/uc?id=abc&export=download'']"
  by (simp add: getDownloadUrls_def opt_includes_def Let_def)

lemma example_download_try:
  assumes "getFileInfo e ''abc'' = example_info"
    and "options = no_options \<or> options = stream_options"
  shows "download_try example_config e example_url options =
           download_loop example_config e ''abc'' example_info
             (case opt_asBuffer options of None \<Rightarrow> True | Some b \<Rightarrow> b) ''original''
             [''https://drive.usercontent.google.com/download?id=abc&export=download&authuser=0'',
              ''https://drive.usercontent.google.com/download?id=abc&export=download&confirm=t'',
              ''https://drive.usercontent.google.com/download?id=abc&export=download'',
              ''https://drive.google.com/uc?export=download&id=abc'',
              ''https://drive.google.com/uc?id=abc&export=download'']
             None"
proof -
  have r: "0 \<le> (case opt_maxRetries options of None \<Rightarrow> DEFAULT_MAX_RETRIES example_config
         | Some n \<Rightarrow> n)"
    using assms(2) example_retries by auto
  have m: "info_mimeType (getFileInfo e ''abc'') \<noteq> NotAString"
    by (simp add: assms(1) example_info_def)
  have f: "(case opt_exportFormat options of None \<Rightarrow> ''original'' | Some f \<Rightarrow> f) = ''original''"
    using assms(2) by (auto simp: no_options_def stream_options_def)
  have u: "string_or_null (info_mimeType example_info) = Some ''application/pdf''"
    by (simp add: example_info_def)
  show ?thesis
    unfolding download_try_reaches_loop[OF example_id r m] assms(1) f u example_urls ..
qed

lemma pdf_buffer: "streamToBuffer example_config (resp_data pdf_response) = Inr ''%PDF-1.4''"
  by (simp add: streamToBuffer_def pdf_response_def example_config_def)

lemma text_buffer: "streamToBuffer example_config (resp_data text_response) = Inr ''hello''"
  by (simp add: streamToBuffer_def text_response_def example_config_def)

lemma html_is_html: "is_html html_response" "\<not> is_html pdf_response"
  by (simp_all add: is_html_def html_response_def pdf_response_def)

lemma example_download_pdf:
  assumes "options = no_options \<or> options = stream_options"
  shows "download example_config serves_pdf example_url options =
           outcome (processDownloadResponse example_config pdf_response example_info ''abc''
                      (case opt_asBuffer options of None \<Rightarrow> True | Some b \<Rightarrow> b) ''original'')"
proof -
  have g: "get_stream serves_pdf u = Inr pdf_response" for u
    by (simp add: serves_pdf_def)
  show ?thesis
    unfolding download_def example_download_try[OF example_getFileInfo(1) assms]
    using download_loop_skips_html[of "[]" serves_pdf _ pdf_response, OF _ g html_is_html(2)]
    by simp
qed

text \<open>The PDF transport, in buffer mode and in stream mode.\<close>

theorem download_buffer_xor_stream_witness:
  "res_success (download example_config serves_pdf example_url no_options)
   \<and> (\<exists>f. res_file (download example_config serves_pdf example_url no_options) = Some f
          \<and> file_buffer f \<noteq> None \<and> file_stream f = None)
   \<and> res_success (download example_config serves_pdf example_url stream_options)
   \<and> (\<exists>f. res_file (download example_config serves_pdf example_url stream_options) = Some f
          \<and> file_buffer f = None \<and> file_stream f \<noteq> None)"
proof -
  have b: "res_success (download example_config serves_pdf example_url no_options)"
  proof -
    from processDownloadResponse_buffer[OF pdf_buffer, of example_info "''abc''" "''original''"]
    obtain result where
      "processDownloadResponse example_config pdf_response example_info ''abc'' True ''original''
         = Inr result"
      by blast
    moreover from this have "res_success result"
      by (auto dest: processDownloadResponse_populated)
    ultimately show ?thesis
      by (simp add: example_download_pdf no_options_def outcome_def)
  qed
  have s: "res_success (download example_config serves_pdf example_url stream_options)"
    by (simp add: example_download_pdf stream_options_def no_options_def outcome_def
        processDownloadResponse_def Let_def)
  have fb: "\<exists>f. res_file (download example_config serves_pdf example_url no_options) = Some f
          \<and> file_buffer f \<noteq> None \<and> file_stream f = None"
    using download_buffer_xor_stream[OF b] by (simp add: no_options_def)
  have fs: "\<exists>f. res_file (download example_config serves_pdf example_url stream_options) = Some f
          \<and> file_buffer f = None \<and> file_stream f \<noteq> None"
    using download_buffer_xor_stream[OF s] by (simp add: stream_options_def no_options_def)
  show ?thesis by (rule conjI[OF b conjI[OF fb conjI[OF s fs]]])
qed

text \<open>
  A file named \<open>notes.txt\<close> of unknown media type: the bytes of a PDF decide when the
  body is one; a body without a signature leaves the decision to the extension.
\<close>

theorem processDownloadResponse_buffer_mimeType_witness:
  "(\<exists>result f.
      processDownloadResponse example_config pdf_response notes_info ''abc'' True ''original''
        = Inr result
      \<and> res_file result = Some f \<and> file_mimetype f = Mime ''application/pdf'')
   \<and> (\<exists>result f.
      processDownloadResponse example_config text_response notes_info ''abc'' True ''original''
        = Inr result
      \<and> res_file result = Some f \<and> file_mimetype f = Mime ''text/plain'')"
proof -
  have pdf: "''application/pdf'' = detectMimeTypeFromBuffer ''%PDF-1.4''"
    by (simp add: detectMimeTypeFromBuffer_def slice_def)
  have unknown: "octet_stream = detectMimeTypeFromBuffer ''hello''"
    by (simp add: detectMimeTypeFromBuffer_def slice_def Let_def)
  have prior: "Absent = adjusted_mimeType notes_info ''original''"
    by (simp add: adjusted_mimeType_def notes_info_def)
  have ext: "Mime ''text/plain'' =
      detectMimeTypeFromExtension (adjusted_name notes_info ''original'')"
    by (simp add: adjusted_name_def notes_info_def notes_txt)
  have ne: "''application/pdf'' \<noteq> octet_stream"
    by (simp add: octet_stream_def)
  from processDownloadResponse_buffer_mimeType[OF pdf_buffer pdf prior ext, of "''abc''"]
  obtain r1 f1 where
    "processDownloadResponse example_config pdf_response notes_info ''abc'' True ''original''
       = Inr r1" "res_file r1 = Some f1"
    "''application/pdf'' \<noteq> octet_stream \<longrightarrow> file_mimetype f1 = Mime ''application/pdf''"
    by blast
  with ne have one: "\<exists>result f.
      processDownloadResponse example_config pdf_response notes_info ''abc'' True ''original''
        = Inr result
      \<and> res_file result = Some f \<and> file_mimetype f = Mime ''application/pdf''"
    by blast
  from processDownloadResponse_buffer_mimeType[OF text_buffer unknown prior ext, of "''abc''"]
  obtain r2 f2 where
    "processDownloadResponse example_config text_response notes_info ''abc'' True ''original''
       = Inr r2" "res_file r2 = Some f2"
    "octet_stream = octet_stream
       \<and> (Absent = Absent \<or> Absent = Mime [] \<or> Absent = Mime octet_stream)
       \<and> truthy (Mime ''text/plain'') \<longrightarrow> file_mimetype f2 = Mime ''text/plain''"
    by blast
  then have two: "\<exists>result f.
      processDownloadResponse example_config text_response notes_info ''abc'' True ''original''
        = Inr result
      \<and> res_file result = Some f \<and> file_mimetype f = Mime ''text/plain''"
    by auto
  show ?thesis by (rule conjI[OF one two])
qed

text \<open>
  Claim C1, as stated, fails where the transport throws an \<open>Error\<close> with an empty message
  on the last candidate: the \<open>error\<close> of the result is that message, the empty string.
\<close>

theorem download_unnamed_error_counterexample:
  "get_stream fails_unnamed ''https://drive.google.com/uc?id=abc&export=download''
     = Inl (Error [])
   \<and> \<not> res_success (download example_config fails_unnamed example_url no_options)
   \<and> res_error (download example_config fails_unnamed example_url no_options) = Some []"
proof -
  have g: "get_stream fails_unnamed u = Inl (Error [])" for u
    by (simp add: fails_unnamed_def serves_pdf_def)
  have "download_try example_config fails_unnamed example_url no_options = Inl (Error [])"
    unfolding example_download_try[OF example_getFileInfo(4) disjI1[OF refl]]
    by (simp add: g)
  then have "download example_config fails_unnamed example_url no_options = failure []"
    by (simp add: download_def outcome_def)
  then show ?thesis by (simp add: failure_def g)
qed

lemma serves_pdf_names_errors: "names_errors serves_pdf"
  by (simp add: names_errors_def serves_pdf_def pdf_response_def)

text \<open>
  With the PDF transport, which names its errors, a URL without an identifier gives a
  failure with a message, and the example URL a success.
\<close>

theorem download_never_raises_witness:
  "names_errors serves_pdf
   \<and> \<not> res_success (download example_config serves_pdf (JsString ''nothing'') no_options)
   \<and> res_error (download example_config serves_pdf (JsString ''nothing'') no_options)
       = Some ''File ID not found in URL. Please verify it is a valid Google Drive URL''
   \<and> res_success (download example_config serves_pdf example_url no_options)"
proof -
  have "extractFileId (JsString ''nothing'') = Inl id_not_found"
    by code_simp
  then have thrown:
    "download_try example_config serves_pdf (JsString ''nothing'') no_options = Inl id_not_found"
    by (simp add: download_try_def Let_def)
  from download_never_raises[of example_config serves_pdf "JsString ''nothing''" no_options]
    thrown
  have failed:
    "\<not> res_success (download example_config serves_pdf (JsString ''nothing'') no_options)"
    "res_error (download example_config serves_pdf (JsString ''nothing'') no_options)
       = Some (message_or ''Unknown error'' id_not_found)"
    by auto
  from failed(2) have msg:
    "res_error (download example_config serves_pdf (JsString ''nothing'') no_options)
       = Some ''File ID not found in URL. Please verify it is a valid Google Drive URL''"
    by (simp add: id_not_found_def)
  from processDownloadResponse_buffer[OF pdf_buffer, of example_info "''abc''" "''original''"]
  obtain result where
    "processDownloadResponse example_config pdf_response example_info ''abc'' True ''original''
       = Inr result"
    by blast
  then have "download example_config serves_pdf example_url no_options = result"
    and "res_success result"
    by (auto simp: example_download_pdf no_options_def outcome_def
        dest: processDownloadResponse_populated)
  with download_never_raises[of example_config serves_pdf example_url no_options]
  have ok: "res_success (download example_config serves_pdf example_url no_options)"
    by auto
  show ?thesis
    by (rule conjI[OF serves_pdf_names_errors conjI[OF failed(1) conjI[OF msg ok]]])
qed

text \<open>
  With every candidate answering HTML the confirmed download supplies the file, or the
  call fails when the confirmation page has no token; with only the first candidate
  answering HTML the second supplies the file.
\<close>

theorem download_html_routing_witness:
  "download example_config serves_html example_url no_options =
     outcome (processDownloadResponse example_config pdf_response example_info ''abc'' True
                ''original'')
   \<and> res_success (download example_config serves_html example_url no_options)
   \<and> download example_config serves_html_no_token example_url no_options =
       failure ''Large file download error: Confirmation token not found for large file''
   \<and> download example_config html_first example_url no_options =
       outcome (processDownloadResponse example_config pdf_response example_info ''abc'' True
                  ''original'')"
proof -
  let ?urls =
    "[''https://drive.usercontent.google.com/download?id=abc&export=download&authuser=0'',
      ''https://drive.usercontent.google.com/download?id=abc&export=download&confirm=t'',
      ''https://drive.usercontent.google.com/download?id=abc&export=download'',
      ''https://drive.google.com/uc?export=download&id=abc'',
      ''https://drive.google.com/uc?id=abc&export=download'']"
  let ?confirmUrl = "''https://drive.google.com/uc?export=download&id=abc''"
  have mime: "info_mimeType example_info \<noteq> NotAString"
    by (simp add: example_info_def)
  have fmt: "''original'' =
      (case opt_exportFormat no_options of None \<Rightarrow> ''original'' | Some f \<Rightarrow> f)"
    by (simp add: no_options_def)
  have buf: "True = (case opt_asBuffer no_options of None \<Rightarrow> True | Some b \<Rightarrow> b)"
    by (simp add: no_options_def)
  have urls: "?urls =
      getDownloadUrls ''abc'' (string_or_null (info_mimeType example_info)) ''original''"
    by (simp add: example_info_def example_urls)
  have confirmUrl: "?confirmUrl = ''https://drive.google.com/uc?export=download&id='' @ ''abc''"
    by simp
  obtain result where
    result: "processDownloadResponse example_config pdf_response example_info ''abc'' True
               ''original'' = Inr result"
    using processDownloadResponse_buffer[OF pdf_buffer, of example_info "''abc''" "''original''"]
    by blast
  then have success: "res_success result"
    by (auto dest: processDownloadResponse_populated)

  \<comment> \<open>every candidate answers with HTML, the confirmation page has a token\<close>
  note routing =
    download_html_routing[OF example_id example_retries(1) example_getFileInfo(2)[symmetric]
      mime fmt buf urls confirmUrl]
  have all_html: "\<forall>v \<in> set ?urls. answers_html serves_html v"
    by (simp add: answers_html_def serves_html_def serves_pdf_def html_is_html)
  have page: "get_text serves_html ?confirmUrl = Inr (Text confirmation_page)"
    by (simp add: serves_html_def serves_pdf_def)
  have "match_confirm confirmation_page = Some ''t0K_9xZ''"
    by (simp add: confirmation_page_def match_confirm_def confirm_at_def is_token_char_def)
  then have token: "confirm_token confirmation_page ''t0K_9xZ''"
    by (simp only: match_confirm_Some_iff)
  have confirmed: "get_stream serves_html
      (''https://drive.google.com/uc?export=download&confirm='' @ ''t0K_9xZ'' @ ''&id=''
         @ ''abc'')
      = Inr pdf_response"
    by (simp add: serves_html_def serves_pdf_def)
  note d = routing[THEN conjunct2, THEN conjunct1, THEN mp, OF all_html, THEN conjunct2,
      THEN conjunct2, THEN spec, THEN spec, THEN mp, OF conjI[OF page token]]
  have one: "download example_config serves_html example_url no_options =
     outcome (processDownloadResponse example_config pdf_response example_info ''abc'' True
                ''original'')"
    unfolding d confirmed by (simp add: result)
  from one result success
  have two: "res_success (download example_config serves_html example_url no_options)"
    by (simp add: outcome_def)

  \<comment> \<open>every candidate answers with HTML, the confirmation page has no token\<close>
  note routing' =
    download_html_routing[OF example_id example_retries(1) example_getFileInfo(3)[symmetric]
      mime fmt buf urls confirmUrl]
  have all_html': "\<forall>v \<in> set ?urls. answers_html serves_html_no_token v"
    by (simp add: answers_html_def serves_html_no_token_def serves_html_def serves_pdf_def
        html_is_html)
  have page': "get_text serves_html_no_token ?confirmUrl = Inr (Text ''<p>confirm=&</p>'')"
    by (simp add: serves_html_no_token_def serves_html_def serves_pdf_def)
  have "match_confirm ''<p>confirm=&</p>'' = None"
    by (simp add: match_confirm_def confirm_at_def is_token_char_def)
  then have none: "\<not> (\<exists>pre c post. ''<p>confirm=&</p>''
      = pre @ ''confirm='' @ c # post \<and> is_token_char c)"
    using match_confirm_None[of "''<p>confirm=&</p>''"] by simp
  note three =
    routing'[THEN conjunct2, THEN conjunct1, THEN mp, OF all_html', THEN conjunct2,
      THEN conjunct1,
      THEN spec, THEN mp, OF conjI[OF page' none]]

  \<comment> \<open>the first candidate answers with HTML, the second with the file\<close>
  note routing'' =
    download_html_routing[OF example_id example_retries(1) example_getFileInfo(5)[symmetric]
      mime fmt buf urls confirmUrl]
  have split: "?urls =
      [''https://drive.usercontent.google.com/download?id=abc&export=download&authuser=0'']
      @ ''https://drive.usercontent.google.com/download?id=abc&export=download&confirm=t''
      # [''https://drive.usercontent.google.com/download?id=abc&export=download'',
         ''https://drive.google.com/uc?export=download&id=abc'',
         ''https://drive.google.com/uc?id=abc&export=download'']"
    by simp
  have first: "\<forall>v \<in> set
      [''https://drive.usercontent.google.com/download?id=abc&export=download&authuser=0''].
        answers_html html_first v"
    by (simp add: answers_html_def html_first_def serves_pdf_def html_is_html)
  have second: "get_stream html_first
      ''https://drive.usercontent.google.com/download?id=abc&export=download&confirm=t''
      = Inr pdf_response"
    by (simp add: html_first_def serves_pdf_def)
  note four =
    routing''[THEN conjunct1, THEN spec, THEN spec, THEN spec, THEN spec, THEN mp,
      OF conjI[OF split conjI[OF first conjI[OF second html_is_html(2)]]]]
  show ?thesis
    by (rule conjI[OF one conjI[OF two conjI[OF three four]]])
qed


end
